theory Spec2Isabelle
  imports Main "HOL-Library.AList"
begin

section \<open>Values, objects and the runtime state\<close>

text \<open>
  The program is JavaScript: objects live on a heap and are compared by identity, accessor
  properties close over mutable variables, and an exception leaves every mutation made so
  far in place. The embedding therefore threads an explicit state through every operation
  and returns the outcome together with the state reached, also when the outcome is an
  exception.

  Only own enumerable properties are represented. A lookup that JavaScript would answer
  from a prototype or from a non-enumerable own property (such as the length of an array)
  is outside the development; a name that is not an own enumerable property reads as
  undefined. Function values are not part of the value universe: the only functions the
  program handles are the consumer callbacks given to a Watcher, which are described below.
  Numbers are integers plus NaN.

  The source is \<open>src/response.js\<close>; line numbers below refer to it.
\<close>

type_synonym addr = nat
type_synonym dep_id = nat
type_synonym wid = nat

datatype val = Undefined | Null | Bool bool | Num int | NaN | Str string | Ref addr

text \<open>The operator \<open>===\<close>: identity on references, equality on primitives, false on NaN.\<close>

definition strict_eq :: "val \<Rightarrow> val \<Rightarrow> bool" where
  "strict_eq a b = (a = b \<and> a \<noteq> NaN)"

text \<open>
  A property is a plain data property, the accessor pair installed by
  \<open>Observer.defineReactive\<close> (its closure holds the variable \<open>val\<close> and the Dep created
  for the property), or the accessor pair installed by \<open>Vue._proxy\<close> (its closure holds
  the key).
\<close>

datatype property = Plain val | Reactive val dep_id | Proxy string

record obj =
  is_array :: bool
  props :: "(string \<times> property) list"

text \<open>
  A consumer callback is described by what it does to the runtime when it is called: it
  evaluates property reads and it may raise. The two callbacks that \<open>Compile.replace\<close>
  passes only write the received value into a DOM node; they are the empty list of steps,
  and the delivery of the value is recorded in the trace. Callbacks that write reactive
  fields are not represented.
\<close>

datatype cb_step = CbRead val string | CbThrow

record watcher =
  w_vm :: val
  w_key :: string
  w_cb :: "cb_step list"

text \<open>
  The trace is an observer's log and nothing in the program reads it: \<open>Updated w\<close> is
  entered when \<open>update()\<close> of tracker \<open>w\<close> starts, \<open>Called w v\<close> when its callback is
  called with \<open>v\<close>.
\<close>

datatype event = Updated wid | Called wid val

text \<open>
  \<open>PathResolutionError\<close> is the error the specification names; no function of the source
  raises it. \<open>RangeError\<close> is the engine's stack overflow, \<open>CallbackError\<close> whatever a
  callback throws.
\<close>

datatype error = TypeError | RangeError | CallbackError | PathResolutionError val string nat

text \<open>
  Data objects, arrays and Vue instances live on the heap. Dep objects and Watcher objects
  are kept in stores of their own and named by the order of their creation: \<open>subs st d\<close>
  is the array \<open>subs\<close> of Dep \<open>d\<close>. \<open>target\<close> is the static field \<open>Dep.target\<close>, with
  \<open>None\<close> for undefined and null.
\<close>

record state =
  heap :: "addr \<Rightarrow> obj"
  next_addr :: addr
  subs :: "dep_id \<Rightarrow> wid list"
  next_dep :: dep_id
  watchers :: "wid \<Rightarrow> watcher"
  next_wid :: wid
  target :: "wid option"
  trace :: "event list"

definition lookup_prop :: "state \<Rightarrow> addr \<Rightarrow> string \<Rightarrow> property option" where
  "lookup_prop st a k = map_of (props (heap st a)) k"

text \<open>\<open>Object.defineProperty\<close>: an existing key keeps its place, a new key goes last.\<close>

definition define_prop :: "state \<Rightarrow> addr \<Rightarrow> string \<Rightarrow> property \<Rightarrow> state" where
  "define_prop st a k p =
     st\<lparr>heap := (heap st)(a := (heap st a)\<lparr>props := AList.update k p (props (heap st a))\<rparr>)\<rparr>"

subsection \<open>Strings as property holders\<close>

definition digit :: "nat \<Rightarrow> char" where
  "digit n = ''0123456789'' ! (n mod 10)"

fun dec :: "nat \<Rightarrow> string" where
  "dec n = (if n < 10 then [digit n] else dec (n div 10) @ [digit n])"

declare dec.simps [simp del]

definition str_index :: "string \<Rightarrow> string \<Rightarrow> val" where
  "str_index s k =
     (case find (\<lambda>i. dec i = k) [0..<length s] of
        None \<Rightarrow> Undefined
      | Some i \<Rightarrow> Str [s ! i])"

text \<open>\<open>Object.keys\<close>: it raises on undefined and null and wraps the other primitives.\<close>

definition Object_keys :: "state \<Rightarrow> val \<Rightarrow> error + string list" where
  "Object_keys st v =
     (case v of
        Undefined \<Rightarrow> Inl TypeError
      | Null \<Rightarrow> Inl TypeError
      | Str s \<Rightarrow> Inr (map dec [0..<length s])
      | Ref a \<Rightarrow> Inr (map fst (props (heap st a)))
      | _ \<Rightarrow> Inr [])"

section \<open>Dep\<close>

text \<open>\<open>Dep.addSub\<close>, lines 80 to 82.\<close>

definition Dep_addSub :: "state \<Rightarrow> dep_id \<Rightarrow> wid \<Rightarrow> state" where
  "Dep_addSub st d w = st\<lparr>subs := (subs st)(d := subs st d @ [w])\<rparr>"

text \<open>
  The body of the getter that \<open>defineReactive\<close> installs, before its \<open>return val\<close>
  (lines 59 to 61).
\<close>

definition getter_track :: "state \<Rightarrow> dep_id \<Rightarrow> state" where
  "getter_track st d = (case target st of None \<Rightarrow> st | Some w \<Rightarrow> Dep_addSub st d w)"

section \<open>Reading a property\<close>

text \<open>
  The expression \<open>v[k]\<close>. On undefined and null it raises a TypeError. On an object it
  finds the own property: a data property gives its value, a converted field calls the
  getter of lines 56 to 63, a proxied key calls the getter of lines 23 to 25, which
  evaluates \<open>this.$data[key]\<close>, two further reads with the instance as \<open>this\<close>.

  The first argument is fuel. It bounds the nesting of accessor calls, and running out of
  it is the engine's RangeError for an exhausted stack.
\<close>

fun get_prop :: "nat \<Rightarrow> state \<Rightarrow> val \<Rightarrow> string \<Rightarrow> (error + val) \<times> state" where
  "get_prop n st Undefined k = (Inl TypeError, st)"
| "get_prop n st Null k = (Inl TypeError, st)"
| "get_prop n st (Str s) k = (Inr (str_index s k), st)"
| "get_prop n st (Ref a) k =
     (case lookup_prop st a k of
        None \<Rightarrow> (Inr Undefined, st)
      | Some (Plain v) \<Rightarrow> (Inr v, st)
      | Some (Reactive v d) \<Rightarrow> (Inr v, getter_track st d)
      | Some (Proxy key) \<Rightarrow>
          (case n of
             0 \<Rightarrow> (Inl RangeError, st)
           | Suc m \<Rightarrow>
               (case get_prop m st (Ref a) ''$data'' of
                  (Inl e, st1) \<Rightarrow> (Inl e, st1)
                | (Inr d, st1) \<Rightarrow> get_prop m st1 d key)))"
| "get_prop n st v k = (Inr Undefined, st)"

section \<open>Watcher\<close>

text \<open>\<open>this.key.split('.')\<close> of line 107.\<close>

fun split_dot :: "string \<Rightarrow> string list" where
  "split_dot [] = [[]]"
| "split_dot (c # cs) =
     (if c = CHR ''.'' then [] # split_dot cs
      else (case split_dot cs of [] \<Rightarrow> [[c]] | x # xs \<Rightarrow> (c # x) # xs))"

text \<open>\<open>segments.reduce((v, k) => v[k], this.vm)\<close> of line 107.\<close>

fun resolve :: "nat \<Rightarrow> state \<Rightarrow> val \<Rightarrow> string list \<Rightarrow> (error + val) \<times> state" where
  "resolve n st v [] = (Inr v, st)"
| "resolve n st v (k # ks) =
     (case get_prop n st v k of
        (Inl e, st1) \<Rightarrow> (Inl e, st1)
      | (Inr u, st1) \<Rightarrow> resolve n st1 u ks)"

text \<open>A call of the callback: its steps in order, up to the first that raises.\<close>

fun run_cb :: "nat \<Rightarrow> state \<Rightarrow> cb_step list \<Rightarrow> (error + unit) \<times> state" where
  "run_cb n st [] = (Inr (), st)"
| "run_cb n st (CbThrow # steps) = (Inl CallbackError, st)"
| "run_cb n st (CbRead v k # steps) =
     (case get_prop n st v k of
        (Inl e, st1) \<Rightarrow> (Inl e, st1)
      | (Inr u, st1) \<Rightarrow> run_cb n st1 steps)"

text \<open>\<open>Watcher.update\<close>, lines 106 to 109.\<close>

definition Watcher_update :: "nat \<Rightarrow> state \<Rightarrow> wid \<Rightarrow> (error + unit) \<times> state" where
  "Watcher_update n st w =
     (let this = watchers st w;
          st0 = st\<lparr>trace := trace st @ [Updated w]\<rparr>
      in case resolve n st0 (w_vm this) (split_dot (w_key this)) of
           (Inl e, st1) \<Rightarrow> (Inl e, st1)
         | (Inr v, st1) \<Rightarrow> run_cb n (st1\<lparr>trace := trace st1 @ [Called w v]\<rparr>) (w_cb this))"

text \<open>
  \<open>Watcher.constructor\<close>, lines 95 to 104: the new tracker is stored, \<open>Dep.target\<close> is
  set to it, \<open>update()\<close> runs, and \<open>Dep.target\<close> is set to null when \<open>update()\<close> has
  returned.
\<close>

definition Watcher_constructor ::
  "nat \<Rightarrow> state \<Rightarrow> val \<Rightarrow> string \<Rightarrow> cb_step list \<Rightarrow> (error + wid) \<times> state" where
  "Watcher_constructor n st vm key cb =
     (let this = next_wid st;
          st1 = st\<lparr>watchers := (watchers st)(this := \<lparr>w_vm = vm, w_key = key, w_cb = cb\<rparr>),
                   next_wid := Suc this,
                   target := Some this\<rparr>
      in case Watcher_update n st1 this of
           (Inl e, st2) \<Rightarrow> (Inl e, st2)
         | (Inr u, st2) \<Rightarrow> (Inr this, st2\<lparr>target := None\<rparr>))"

section \<open>Notification and writing a property\<close>

text \<open>
  \<open>Dep.notify\<close>, lines 83 to 87. \<open>subs.forEach\<close> visits the indices below the length
  the array had when the loop began. Nothing removes an element of \<open>subs\<close>, so these are
  the elements recorded at that moment. An exception ends the loop.
\<close>

fun forEach_update :: "nat \<Rightarrow> state \<Rightarrow> wid list \<Rightarrow> (error + unit) \<times> state" where
  "forEach_update n st [] = (Inr (), st)"
| "forEach_update n st (w # ws) =
     (case Watcher_update n st w of
        (Inl e, st1) \<Rightarrow> (Inl e, st1)
      | (Inr u, st1) \<Rightarrow> forEach_update n st1 ws)"

definition Dep_notify :: "nat \<Rightarrow> state \<Rightarrow> dep_id \<Rightarrow> (error + unit) \<times> state" where
  "Dep_notify n st d = forEach_update n st (subs st d)"

text \<open>
  The assignment \<open>v[k] = x\<close> in strict mode, which is the mode of every class body of the
  source. A converted field calls the setter of lines 64 to 70, a proxied key the setter of
  lines 26 to 28, which evaluates \<open>this.$data[key] = newVal\<close>.
\<close>

fun set_prop :: "nat \<Rightarrow> state \<Rightarrow> val \<Rightarrow> string \<Rightarrow> val \<Rightarrow> (error + unit) \<times> state" where
  "set_prop n st (Ref a) k x =
     (case lookup_prop st a k of
        None \<Rightarrow> (Inr (), define_prop st a k (Plain x))
      | Some (Plain v) \<Rightarrow> (Inr (), define_prop st a k (Plain x))
      | Some (Reactive v d) \<Rightarrow>
          (if strict_eq v x then (Inr (), st)
           else Dep_notify n (define_prop st a k (Reactive x d)) d)
      | Some (Proxy key) \<Rightarrow>
          (case n of
             0 \<Rightarrow> (Inl RangeError, st)
           | Suc m \<Rightarrow>
               (case get_prop m st (Ref a) ''$data'' of
                  (Inl e, st1) \<Rightarrow> (Inl e, st1)
                | (Inr d, st1) \<Rightarrow> set_prop m st1 d key x)))"
| "set_prop n st v k x = (Inl TypeError, st)"

section \<open>Observer\<close>

text \<open>\<open>new Dep()\<close>, lines 77 to 79.\<close>

definition new_Dep :: "state \<Rightarrow> dep_id \<times> state" where
  "new_Dep st = (next_dep st, st\<lparr>subs := (subs st)(next_dep st := []), next_dep := Suc (next_dep st)\<rparr>)"

text \<open>
  \<open>Observer.observe\<close> (lines 40 to 47) and \<open>Observer.defineReactive\<close> (lines 49 to 72).
  \<open>observe\<close> returns at once unless its argument is an object; an array is one.
  \<open>observe_keys\<close> is the loop over \<open>Object.keys(data)\<close>, and the argument \<open>data[key]\<close>
  of \<open>defineReactive\<close> is a read like any other. The two functions call each other once
  per level of nesting of the data; the fuel bounds that nesting, and a cyclic object graph
  exhausts it.
\<close>

fun observe :: "nat \<Rightarrow> state \<Rightarrow> val \<Rightarrow> (error + unit) \<times> state"
and observe_keys :: "nat \<Rightarrow> state \<Rightarrow> addr \<Rightarrow> string list \<Rightarrow> (error + unit) \<times> state"
and defineReactive :: "nat \<Rightarrow> state \<Rightarrow> addr \<Rightarrow> string \<Rightarrow> val \<Rightarrow> (error + unit) \<times> state"
where
  "observe 0 st (Ref a) = (Inl RangeError, st)"
| "observe (Suc n) st (Ref a) = observe_keys n st a (map fst (props (heap st a)))"
| "observe n st v = (Inr (), st)"
| "observe_keys n st a [] = (Inr (), st)"
| "observe_keys n st a (key # keys) =
     (case get_prop n st (Ref a) key of
        (Inl e, st1) \<Rightarrow> (Inl e, st1)
      | (Inr v, st1) \<Rightarrow>
          (case defineReactive n st1 a key v of
             (Inl e, st2) \<Rightarrow> (Inl e, st2)
           | (Inr u, st2) \<Rightarrow> observe_keys n st2 a keys))"
| "defineReactive n st a key v =
     (case observe n st v of
        (Inl e, st1) \<Rightarrow> (Inl e, st1)
      | (Inr u, st1) \<Rightarrow>
          (let (dep, st2) = new_Dep st1
           in (Inr (), define_prop st2 a key (Reactive v dep))))"

section \<open>Vue\<close>

text \<open>\<open>Vue._proxy\<close>, lines 19 to 30.\<close>

definition Vue_proxy :: "state \<Rightarrow> addr \<Rightarrow> string \<Rightarrow> state" where
  "Vue_proxy st this key = define_prop st this key (Proxy key)"

text \<open>
  The loop \<open>Object.keys(this.$data).forEach(key => this._proxy(key))\<close>. The method is
  looked up on the instance at every call, and an own property named \<open>_proxy\<close> shadows it;
  such a property holds no function.
\<close>

fun forEach_proxy :: "nat \<Rightarrow> state \<Rightarrow> addr \<Rightarrow> string list \<Rightarrow> (error + unit) \<times> state" where
  "forEach_proxy n st this [] = (Inr (), st)"
| "forEach_proxy n st this (key # keys) =
     (case lookup_prop st this ''_proxy'' of
        None \<Rightarrow> forEach_proxy n (Vue_proxy st this key) this keys
      | Some p \<Rightarrow>
          (case get_prop n st (Ref this) ''_proxy'' of
             (Inl e, st1) \<Rightarrow> (Inl e, st1)
           | (Inr f, st1) \<Rightarrow> (Inl TypeError, st1)))"

text \<open>
  \<open>Vue.constructor\<close>, lines 2 to 13, up to its third step. The Observer object of the
  second step only holds a reference to the data and is dropped at once; it is not
  allocated. The fourth step, \<open>new Compile(options.el, this)\<close>, works on the DOM and is
  not part of this development.
\<close>

definition Vue_constructor :: "nat \<Rightarrow> state \<Rightarrow> val \<Rightarrow> (error + addr) \<times> state" where
  "Vue_constructor n st options =
     (let this = next_addr st;
          st1 = st\<lparr>heap := (heap st)(this := \<lparr>is_array = False, props = [(''$options'', Plain options)]\<rparr>),
                   next_addr := Suc this\<rparr>
      in case get_prop n st1 options ''data'' of
           (Inl e, st2) \<Rightarrow> (Inl e, st2)
         | (Inr d, st2) \<Rightarrow>
             (case observe n (define_prop st2 this ''$data'' (Plain d)) d of
                (Inl e, st3) \<Rightarrow> (Inl e, st3)
              | (Inr u, st3) \<Rightarrow>
                  (case get_prop n st3 (Ref this) ''$data'' of
                     (Inl e, st4) \<Rightarrow> (Inl e, st4)
                   | (Inr d', st4) \<Rightarrow>
                       (case Object_keys st4 d' of
                          Inl e \<Rightarrow> (Inl e, st4)
                        | Inr keys \<Rightarrow>
                            (case forEach_proxy n st4 this keys of
                               (Inl e, st5) \<Rightarrow> (Inl e, st5)
                             | (Inr u, st5) \<Rightarrow> (Inr this, st5))))))"

section \<open>Building states\<close>

text \<open>
  The state of a freshly loaded program: nothing is allocated and \<open>Dep.target\<close> has never
  been assigned. \<open>new_object\<close> is an object literal whose fields are plain data properties,
  \<open>new_array\<close> an array literal.
\<close>

definition init_state :: state where
  "init_state =
     \<lparr>heap = (\<lambda>a. \<lparr>is_array = False, props = []\<rparr>), next_addr = 0,
      subs = (\<lambda>d. []), next_dep = 0,
      watchers = (\<lambda>w. \<lparr>w_vm = Undefined, w_key = [], w_cb = []\<rparr>), next_wid = 0,
      target = None, trace = []\<rparr>"

definition new_object :: "state \<Rightarrow> (string \<times> val) list \<Rightarrow> addr \<times> state" where
  "new_object st kvs =
     (next_addr st,
      st\<lparr>heap := (heap st)(next_addr st :=
              \<lparr>is_array = False, props = map (\<lambda>(k, v). (k, Plain v)) kvs\<rparr>),
         next_addr := Suc (next_addr st)\<rparr>)"

definition new_array :: "state \<Rightarrow> val list \<Rightarrow> addr \<times> state" where
  "new_array st elems =
     (next_addr st,
      st\<lparr>heap := (heap st)(next_addr st :=
              \<lparr>is_array = True,
               props = map (\<lambda>i. (dec i, Plain (elems ! i))) [0..<length elems]\<rparr>),
         next_addr := Suc (next_addr st)\<rparr>)"

section \<open>Notions used to state the properties\<close>

text \<open>
  The trackers whose \<open>update()\<close> was entered, and the trackers whose callback was called
  together with the value passed, both in the order of the calls.
\<close>

fun updated :: "event list \<Rightarrow> wid list" where
  "updated [] = []"
| "updated (Updated w # evs) = w # updated evs"
| "updated (Called w v # evs) = updated evs"

fun called :: "event list \<Rightarrow> (wid \<times> val) list" where
  "called [] = []"
| "called (Updated w # evs) = called evs"
| "called (Called w v # evs) = (w, v) # called evs"

definition raised_PathResolutionError :: "error + 'a \<Rightarrow> bool" where
  "raised_PathResolutionError r =
     (case r of Inl (PathResolutionError v p i) \<Rightarrow> True | _ \<Rightarrow> False)"

text \<open>The subscriptions that some accessor on the heap closes over.\<close>

definition reactive_deps :: "state \<Rightarrow> dep_id set" where
  "reactive_deps st = {d. \<exists>a k v. lookup_prop st a k = Some (Reactive v d)}"

text \<open>
  \<open>extends st st'\<close>: the second state differs from the first only by subscribers appended
  to subscription lists of accessors on the heap, each of them the tracker held in
  \<open>Dep.target\<close>, and by events appended to the trace.
\<close>

definition extends :: "state \<Rightarrow> state \<Rightarrow> bool" where
  "extends st st' \<longleftrightarrow>
     (\<exists>S evs. st' = st\<lparr>subs := S, trace := trace st @ evs\<rparr> \<and>
        (\<forall>d. \<exists>ws. S d = subs st d @ ws \<and> set ws \<subseteq> set_option (target st) \<and>
                 (ws = [] \<or> d \<in> reactive_deps st)))"

text \<open>
  What the rest of a program can do to the runtime: read and write properties, create
  trackers and call \<open>update()\<close> on them, convert data, create Vue instances, and allocate
  object and array literals. An operation that raises leaves the state it reached, and the
  program goes on from there.
\<close>

datatype operation =
    Read val string
  | Write val string val
  | NewWatcher val string "cb_step list"
  | Update wid
  | Observe val
  | NewVue val
  | NewObject "(string \<times> val) list"
  | NewArray "val list"

fun exec :: "nat \<Rightarrow> state \<Rightarrow> operation \<Rightarrow> state" where
  "exec n st (Read v k) = snd (get_prop n st v k)"
| "exec n st (Write v k x) = snd (set_prop n st v k x)"
| "exec n st (NewWatcher vm key cb) = snd (Watcher_constructor n st vm key cb)"
| "exec n st (Update w) = snd (Watcher_update n st w)"
| "exec n st (Observe v) = snd (observe n st v)"
| "exec n st (NewVue options) = snd (Vue_constructor n st options)"
| "exec n st (NewObject kvs) = snd (new_object st kvs)"
| "exec n st (NewArray elems) = snd (new_array st elems)"

definition exec_all :: "nat \<Rightarrow> state \<Rightarrow> operation list \<Rightarrow> state" where
  "exec_all n st ops = foldl (exec n) st ops"

text \<open>
  Every accessor on the heap closes over a Dep that has been created, and a Dep that has
  not been created yet has no subscribers.
\<close>

definition deps_allocated :: "state \<Rightarrow> bool" where
  "deps_allocated st \<longleftrightarrow>
     (\<forall>d. next_dep st \<le> d \<longrightarrow> subs st d = []) \<and> (\<forall>d \<in> reactive_deps st. d < next_dep st)"

text \<open>
  \<open>stable w st st'\<close>: if the first state has its Deps allocated, so has the second; and
  if moreover tracker \<open>w\<close> exists in the first state and is not the one held in
  \<open>Dep.target\<close>, the same is true of the second state, and \<open>w\<close> occurs in every
  subscription list as often as before.
\<close>

definition stable :: "wid \<Rightarrow> state \<Rightarrow> state \<Rightarrow> bool" where
  "stable w st st' \<longleftrightarrow>
     (deps_allocated st \<longrightarrow>
        deps_allocated st' \<and>
        (w < next_wid st \<and> target st \<noteq> Some w \<longrightarrow>
           w < next_wid st' \<and> target st' \<noteq> Some w \<and>
           (\<forall>d. count_list (subs st' d) w = count_list (subs st d) w)))"

text \<open>The object carries no accessor installed by \<open>Vue._proxy\<close>.\<close>

definition plain_obj :: "state \<Rightarrow> addr \<Rightarrow> bool" where
  "plain_obj st a \<longleftrightarrow> (\<forall>k key. lookup_prop st a k \<noteq> Some (Proxy key))"

text \<open>The value a data property holds, or the variable \<open>val\<close> of a converted field.\<close>

definition field_value :: "state \<Rightarrow> addr \<Rightarrow> string \<Rightarrow> val option" where
  "field_value st a k =
     (case lookup_prop st a k of
        Some (Plain v) \<Rightarrow> Some v
      | Some (Reactive v d) \<Rightarrow> Some v
      | _ \<Rightarrow> None)"

text \<open>The field is intercepted: its property is the accessor pair of \<open>defineReactive\<close>.\<close>

definition is_reactive :: "state \<Rightarrow> addr \<Rightarrow> string \<Rightarrow> bool" where
  "is_reactive st a k = (case lookup_prop st a k of Some (Reactive v d) \<Rightarrow> True | _ \<Rightarrow> False)"

definition own_keys :: "state \<Rightarrow> addr \<Rightarrow> string list" where
  "own_keys st a = map fst (props (heap st a))"

text \<open>
  \<open>reaches st a b\<close>: object \<open>b\<close> is object \<open>a\<close> or is nested in it, through fields whose
  values are objects.
\<close>

inductive reaches :: "state \<Rightarrow> addr \<Rightarrow> addr \<Rightarrow> bool" for st where
  here: "reaches st a a"
| step: "field_value st a k = Some (Ref c) \<Longrightarrow> reaches st c b \<Longrightarrow> reaches st a b"

text \<open>
  A plain data object: neither the object nor an object nested in it carries a proxy
  accessor. Its properties are data properties or fields converted earlier.
\<close>

definition plain_data :: "state \<Rightarrow> addr \<Rightarrow> bool" where
  "plain_data st D \<longleftrightarrow> (\<forall>b. reaches st D b \<longrightarrow> plain_obj st b)"


text \<open>Every own field of the object is intercepted.\<close>

definition observed :: "state \<Rightarrow> addr \<Rightarrow> bool" where
  "observed st a \<longleftrightarrow> (\<forall>k \<in> set (own_keys st a). is_reactive st a k)"

text \<open>
  \<open>conv st st'\<close>: the second state has the same objects with the same keys and the same
  field values, and its intercepted fields include those of the first.
\<close>

definition conv :: "state \<Rightarrow> state \<Rightarrow> bool" where
  "conv st st' \<longleftrightarrow>
     (\<forall>a. own_keys st' a = own_keys st a) \<and>
     (\<forall>a k. field_value st' a k = field_value st a k) \<and>
     (\<forall>a k. is_reactive st a k \<longrightarrow> is_reactive st' a k)"



text \<open>No two accessors on the heap share a Dep.\<close>

definition own_deps :: "state \<Rightarrow> bool" where
  "own_deps st \<longleftrightarrow>
     (\<forall>a k v d a' k' v'. lookup_prop st a k = Some (Reactive v d) \<longrightarrow>
        lookup_prop st a' k' = Some (Reactive v' d) \<longrightarrow> a = a' \<and> k = k')"

text \<open>
  Addresses below \<open>N\<close> are closed: a field of an object below \<open>N\<close> never refers to an
  object at \<open>N\<close> or above. With \<open>N\<close> the next free address this says that allocated
  objects refer to allocated objects only.
\<close>

definition val_below :: "addr \<Rightarrow> val \<Rightarrow> bool" where
  "val_below N v = (case v of Ref b \<Rightarrow> b < N | _ \<Rightarrow> True)"

definition closed_below :: "addr \<Rightarrow> state \<Rightarrow> bool" where
  "closed_below N st \<longleftrightarrow> (\<forall>a<N. \<forall>k v. field_value st a k = Some v \<longrightarrow> val_below N v)"

text \<open>
  \<open>frames N st st'\<close>: the second state is closed below \<open>N\<close> and has the objects of the
  first at \<open>N\<close> and above.
\<close>

definition frames :: "addr \<Rightarrow> state \<Rightarrow> state \<Rightarrow> bool" where
  "frames N st st' \<longleftrightarrow> closed_below N st' \<and> (\<forall>b\<ge>N. heap st' b = heap st b)"

section \<open>Example programs\<close>

text \<open>\<open>D = {count: 1}; new Observer(D)\<close>\<close>

definition ex_counter :: state where
  "ex_counter = snd (observe 1 (snd (new_object init_state [(''count'', Num 1)])) (Ref 0))"

text \<open>\<open>D = {a: 1, b: 2}; new Observer(D)\<close>\<close>

definition ex_ab :: state where
  "ex_ab = snd (observe 1 (snd (new_object init_state [(''a'', Num 1), (''b'', Num 2)])) (Ref 0))"

text \<open>\<open>inner = {b: 5}; D = {a: inner}; new Observer(D)\<close>: \<open>inner\<close> is object 0, \<open>D\<close> object 1.\<close>

definition ex_nested_plain :: state where
  "ex_nested_plain =
     snd (new_object (snd (new_object init_state [(''b'', Num 5)])) [(''a'', Ref 0)])"

definition ex_nested :: state where
  "ex_nested = snd (observe 2 ex_nested_plain (Ref 1))"

text \<open>
  Then \<open>new Watcher(D, 'a', cb)\<close>, \<open>new Watcher(D, 'a.b', cb)\<close> and
  \<open>new Watcher(D, 'a', cb)\<close>, with callbacks that only deliver the value.
\<close>

definition ex_three_watchers :: state where
  "ex_three_watchers =
     snd (Watcher_constructor 0
       (snd (Watcher_constructor 0
         (snd (Watcher_constructor 0 ex_nested (Ref 1) ''a'' []))
         (Ref 1) ''a.b'' []))
       (Ref 1) ''a'' [])"

text \<open>\<open>D = {count: 1}\<close> converted, then two trackers of \<open>count\<close>.\<close>

definition ex_counter_watched :: state where
  "ex_counter_watched =
     snd (Watcher_constructor 0
       (snd (Watcher_constructor 0 ex_counter (Ref 0) ''count'' []))
       (Ref 0) ''count'' [])"

text \<open>
  Then \<open>new Watcher(D, 'count.x.y', cb)\<close>, which raises after reading \<open>count\<close>: tracker 2
  is recorded for \<open>count\<close> and stays in \<open>Dep.target\<close>.
\<close>

definition ex_counter_pending :: state where
  "ex_counter_pending = snd (Watcher_constructor 0 ex_counter_watched (Ref 0) ''count.x.y'' [])"


text \<open>\<open>D = {list: [7, 8]}\<close>: the array is object 0, \<open>D\<close> object 1.\<close>

definition ex_list_plain :: state where
  "ex_list_plain = snd (new_object (snd (new_array init_state [Num 7, Num 8])) [(''list'', Ref 0)])"

text \<open>\<open>options = {el: '#app', data: {count: 1}}\<close>: the data is object 0, the options object 1.\<close>

definition ex_vue_options :: state where
  "ex_vue_options =
     snd (new_object (snd (new_object init_state [(''count'', Num 1)]))
            [(''el'', Str ''#app''), (''data'', Ref 0)])"

text \<open>\<open>options = {el: '#app', data: {$data: 1, x: 2}}\<close>\<close>

definition ex_dollar_options :: state where
  "ex_dollar_options =
     snd (new_object (snd (new_object init_state [(''$data'', Num 1), (''x'', Num 2)]))
            [(''el'', Str ''#app''), (''data'', Ref 0)])"

text \<open>
  The end-to-end example: \<open>D = {count: 1}\<close> is converted and one tracker of \<open>count\<close> is
  created; then \<open>D.count = 1\<close> and \<open>D.count = 2\<close>.
\<close>

definition ex_end_to_end :: state where
  "ex_end_to_end =
     exec_all 0 (snd (Watcher_constructor 0 ex_counter (Ref 0) ''count'' []))
       [Write (Ref 0) ''count'' (Num 1), Write (Ref 0) ''count'' (Num 2)]"

section \<open>Reads, updates and notifications leave the heap alone\<close>

lemma extends_refl: "extends st st"
  unfolding extends_def
  by (rule exI[of _ "subs st"], rule exI[of _ "[]"]) simp

lemma extends_frame:
  assumes "extends st st'"
  shows "heap st' = heap st" "next_addr st' = next_addr st" "next_dep st' = next_dep st"
    "watchers st' = watchers st" "next_wid st' = next_wid st" "target st' = target st"
  using assms unfolding extends_def by auto

lemma extends_lookup: "extends st st' \<Longrightarrow> lookup_prop st' a k = lookup_prop st a k"
  by (simp add: lookup_prop_def extends_frame)

lemma extends_reactive_deps: "extends st st' \<Longrightarrow> reactive_deps st' = reactive_deps st"
  by (simp add: reactive_deps_def extends_lookup)

lemma extends_trans:
  assumes "extends s1 s2" and "extends s2 s3"
  shows "extends s1 s3"
proof -
  from assms(1) obtain S1 e1 where s2: "s2 = s1\<lparr>subs := S1, trace := trace s1 @ e1\<rparr>"
    and g1: "\<forall>d. \<exists>ws. S1 d = subs s1 d @ ws \<and> set ws \<subseteq> set_option (target s1) \<and>
                (ws = [] \<or> d \<in> reactive_deps s1)"
    unfolding extends_def by blast
  from assms(2) obtain S2 e2 where s3: "s3 = s2\<lparr>subs := S2, trace := trace s2 @ e2\<rparr>"
    and g2: "\<forall>d. \<exists>ws. S2 d = subs s2 d @ ws \<and> set ws \<subseteq> set_option (target s2) \<and>
                (ws = [] \<or> d \<in> reactive_deps s2)"
    unfolding extends_def by blast
  have eq: "s3 = s1\<lparr>subs := S2, trace := trace s1 @ (e1 @ e2)\<rparr>"
    by (simp add: s3 s2)
  have rd: "reactive_deps s2 = reactive_deps s1"
    by (rule extends_reactive_deps[OF assms(1)])
  have "\<exists>ws. S2 d = subs s1 d @ ws \<and> set ws \<subseteq> set_option (target s1) \<and>
          (ws = [] \<or> d \<in> reactive_deps s1)" for d
  proof -
    from g1 obtain w1 where w1: "S1 d = subs s1 d @ w1" "set w1 \<subseteq> set_option (target s1)"
      "w1 = [] \<or> d \<in> reactive_deps s1" by blast
    from g2 obtain w2 where w2: "S2 d = subs s2 d @ w2" "set w2 \<subseteq> set_option (target s2)"
      "w2 = [] \<or> d \<in> reactive_deps s2" by blast
    have "S2 d = subs s1 d @ (w1 @ w2)" using w1 w2 by (simp add: s2)
    moreover have "set (w1 @ w2) \<subseteq> set_option (target s1)" using w1 w2 by (simp add: s2)
    moreover have "w1 @ w2 = [] \<or> d \<in> reactive_deps s1" using w1(3) w2(3) rd by auto
    ultimately show ?thesis by blast
  qed
  with eq show ?thesis unfolding extends_def by blast
qed

lemma extends_getter_track:
  assumes "lookup_prop st a k = Some (Reactive v d)"
  shows "extends st (getter_track st d)"
proof (cases "target st")
  case None
  then show ?thesis by (simp add: getter_track_def extends_refl)
next
  case (Some w)
  have "getter_track st d = st\<lparr>subs := (subs st)(d := subs st d @ [w]), trace := trace st @ []\<rparr>"
    by (simp add: getter_track_def Some Dep_addSub_def)
  moreover have "\<exists>ws. ((subs st)(d := subs st d @ [w])) d' = subs st d' @ ws \<and>
      set ws \<subseteq> set_option (target st) \<and> (ws = [] \<or> d' \<in> reactive_deps st)" for d'
  proof (cases "d' = d")
    case True
    have "d \<in> reactive_deps st" using assms unfolding reactive_deps_def by blast
    with True Some show ?thesis by simp
  next
    case False
    then show ?thesis by simp
  qed
  ultimately show ?thesis unfolding extends_def by blast
qed

lemma get_prop_extends: "get_prop n st v k = (r, st') \<Longrightarrow> extends st st'"
proof (induction n arbitrary: st v k r st')
  case 0
  then show ?case
    by (cases v) (auto simp: extends_refl extends_getter_track split: option.splits property.splits)
next
  case (Suc n)
  show ?case
  proof (cases v)
    case (Ref a)
    show ?thesis
    proof (cases "lookup_prop st a k")
      case None
      with Suc.prems Ref show ?thesis by (simp add: extends_refl)
    next
      case (Some p)
      show ?thesis
      proof (cases p)
        case (Plain x)
        with Suc.prems Ref Some show ?thesis by (simp add: extends_refl)
      next
        case (Reactive x d)
        with Suc.prems Ref Some show ?thesis by (auto simp: extends_getter_track)
      next
        case (Proxy key)
        obtain r1 s1 where g1: "get_prop n st (Ref a) ''$data'' = (r1, s1)" by (cases "get_prop n st (Ref a) ''$data''")
        have e1: "extends st s1" using Suc.IH[OF g1] .
        show ?thesis
        proof (cases r1)
          case (Inl e)
          with Suc.prems Ref Some Proxy g1 e1 show ?thesis by simp
        next
          case (Inr dv)
          with Suc.prems Ref Some Proxy g1 have "get_prop n s1 dv key = (r, st')" by simp
          from Suc.IH[OF this] e1 show ?thesis by (blast intro: extends_trans)
        qed
      qed
    qed
  qed (use Suc.prems in \<open>auto simp: extends_refl\<close>)
qed

lemma get_prop_trace: "get_prop n st v k = (r, st') \<Longrightarrow> trace st' = trace st"
proof (induction n arbitrary: st v k r st')
  case 0
  then show ?case
    by (cases v) (auto simp: getter_track_def Dep_addSub_def split: option.splits property.splits)
next
  case (Suc n)
  show ?case
  proof (cases v)
    case (Ref a)
    show ?thesis
    proof (cases "lookup_prop st a k")
      case None
      with Suc.prems Ref show ?thesis by simp
    next
      case (Some p)
      show ?thesis
      proof (cases p)
        case (Plain x)
        with Suc.prems Ref Some show ?thesis by simp
      next
        case (Reactive x d)
        with Suc.prems Ref Some show ?thesis by (auto simp: getter_track_def Dep_addSub_def split: option.splits)
      next
        case (Proxy key)
        obtain r1 s1 where g1: "get_prop n st (Ref a) ''$data'' = (r1, s1)" by (cases "get_prop n st (Ref a) ''$data''")
        have e1: "trace s1 = trace st" using Suc.IH[OF g1] .
        show ?thesis
        proof (cases r1)
          case (Inl e)
          with Suc.prems Ref Some Proxy g1 e1 show ?thesis by simp
        next
          case (Inr dv)
          with Suc.prems Ref Some Proxy g1 have "get_prop n s1 dv key = (r, st')" by simp
          from Suc.IH[OF this] e1 show ?thesis by simp
        qed
      qed
    qed
  qed (use Suc.prems in auto)
qed

lemma resolve_extends: "resolve n st v ks = (r, st') \<Longrightarrow> extends st st'"
proof (induction ks arbitrary: st v)
  case Nil
  then show ?case by (simp add: extends_refl)
next
  case (Cons k ks)
  obtain r1 s1 where g: "get_prop n st v k = (r1, s1)" by (cases "get_prop n st v k")
  note e1 = get_prop_extends[OF g]
  show ?case
  proof (cases r1)
    case (Inl e) with Cons.prems g e1 show ?thesis by simp
  next
    case (Inr u)
    with Cons.prems g have "resolve n s1 u ks = (r, st')" by simp
    from Cons.IH[OF this] e1 show ?thesis by (blast intro: extends_trans)
  qed
qed

lemma resolve_trace: "resolve n st v ks = (r, st') \<Longrightarrow> trace st' = trace st"
proof (induction ks arbitrary: st v)
  case Nil
  then show ?case by simp
next
  case (Cons k ks)
  obtain r1 s1 where g: "get_prop n st v k = (r1, s1)" by (cases "get_prop n st v k")
  note e1 = get_prop_trace[OF g]
  show ?case
  proof (cases r1)
    case (Inl e) with Cons.prems g e1 show ?thesis by simp
  next
    case (Inr u)
    with Cons.prems g have "resolve n s1 u ks = (r, st')" by simp
    from Cons.IH[OF this] e1 show ?thesis by simp
  qed
qed

lemma run_cb_extends: "run_cb n st steps = (r, st') \<Longrightarrow> extends st st'"
proof (induction n st steps rule: run_cb.induct)
  case (1 n st)
  then show ?case by (simp add: extends_refl)
next
  case (2 n st steps)
  then show ?case by (simp add: extends_refl)
next
  case (3 n st v k steps)
  obtain r1 s1 where g: "get_prop n st v k = (r1, s1)" by (cases "get_prop n st v k")
  note e1 = get_prop_extends[OF g]
  show ?case
  proof (cases r1)
    case (Inl e) with "3.prems" g e1 show ?thesis by simp
  next
    case (Inr u)
    with "3.prems" g have "run_cb n s1 steps = (r, st')" by simp
    from "3.IH"[OF g[symmetric] _ this] Inr e1 show ?thesis by (auto intro: extends_trans)
  qed
qed

lemma run_cb_trace: "run_cb n st steps = (r, st') \<Longrightarrow> trace st' = trace st"
proof (induction n st steps rule: run_cb.induct)
  case (3 n st v k steps)
  obtain r1 s1 where g: "get_prop n st v k = (r1, s1)" by (cases "get_prop n st v k")
  note e1 = get_prop_trace[OF g]
  show ?case
  proof (cases r1)
    case (Inl e) with "3.prems" g e1 show ?thesis by simp
  next
    case (Inr u)
    with "3.prems" g have "run_cb n s1 steps = (r, st')" by simp
    from "3.IH"[OF g[symmetric] _ this] Inr e1 show ?thesis by auto
  qed
qed simp_all

lemma updated_append: "updated (xs @ ys) = updated xs @ updated ys"
  by (induction xs rule: updated.induct) simp_all

lemma called_append: "called (xs @ ys) = called xs @ called ys"
  by (induction xs rule: called.induct) simp_all

lemma extends_trace_app: "extends st (st\<lparr>trace := trace st @ evs\<rparr>)"
  unfolding extends_def
  by (rule exI[of _ "subs st"], rule exI[of _ evs]) simp

text \<open>What one call of update() does to the trace.\<close>

lemma Watcher_update_cases:
  assumes "Watcher_update n st w = (r, st')"
  obtains (resolution_failed) e st1 where
      "resolve n (st\<lparr>trace := trace st @ [Updated w]\<rparr>) (w_vm (watchers st w))
         (split_dot (w_key (watchers st w))) = (Inl e, st1)"
      "r = Inl e" "st' = st1"
  | (callback_ran) v st1 where
      "resolve n (st\<lparr>trace := trace st @ [Updated w]\<rparr>) (w_vm (watchers st w))
         (split_dot (w_key (watchers st w))) = (Inr v, st1)"
      "run_cb n (st1\<lparr>trace := trace st1 @ [Called w v]\<rparr>) (w_cb (watchers st w)) = (r, st')"
proof -
  obtain r1 st1 where res: "resolve n (st\<lparr>trace := trace st @ [Updated w]\<rparr>) (w_vm (watchers st w))
         (split_dot (w_key (watchers st w))) = (r1, st1)"
    by (cases "resolve n (st\<lparr>trace := trace st @ [Updated w]\<rparr>) (w_vm (watchers st w))
         (split_dot (w_key (watchers st w)))")
  show thesis
  proof (cases r1)
    case (Inl e)
    with assms res have "r = Inl e" "st' = st1" by (simp_all add: Watcher_update_def Let_def)
    with res Inl show thesis by (intro resolution_failed) simp_all
  next
    case (Inr v)
    with assms res have "run_cb n (st1\<lparr>trace := trace st1 @ [Called w v]\<rparr>) (w_cb (watchers st w)) = (r, st')"
      by (simp add: Watcher_update_def Let_def)
    with res Inr show thesis by (intro callback_ran) simp_all
  qed
qed

lemma Watcher_update_extends:
  assumes "Watcher_update n st w = (r, st')"
  shows "extends st st'"
  using assms
proof (cases rule: Watcher_update_cases)
  case (resolution_failed e st1)
  from resolve_extends[OF resolution_failed(1)] extends_trace_app[of st "[Updated w]"]
  show ?thesis using resolution_failed(3) by (blast intro: extends_trans)
next
  case (callback_ran v st1)
  have a: "extends st st1"
    using resolve_extends[OF callback_ran(1)] extends_trace_app[of st "[Updated w]"]
    by (blast intro: extends_trans)
  have b: "extends st1 (st1\<lparr>trace := trace st1 @ [Called w v]\<rparr>)" by (rule extends_trace_app)
  from a b run_cb_extends[OF callback_ran(2)] show ?thesis by (blast intro: extends_trans)
qed

lemma Watcher_update_trace:
  assumes "Watcher_update n st w = (r, st')"
  shows "(\<exists>e. r = Inl e \<and> trace st' = trace st @ [Updated w]) \<or>
         (\<exists>v. trace st' = trace st @ [Updated w, Called w v])"
  using assms
proof (cases rule: Watcher_update_cases)
  case (resolution_failed e st1)
  from resolve_trace[OF resolution_failed(1)] resolution_failed(2,3) show ?thesis by simp
next
  case (callback_ran v st1)
  from resolve_trace[OF callback_ran(1)] run_cb_trace[OF callback_ran(2)] show ?thesis by simp
qed

lemma run_cb_ok_trace: "run_cb n st steps = (Inr u, st') \<Longrightarrow> trace st' = trace st"
  by (rule run_cb_trace)

lemma Watcher_update_ok_trace:
  assumes "Watcher_update n st w = (Inr u, st')"
  shows "\<exists>v. trace st' = trace st @ [Updated w, Called w v]"
  using Watcher_update_trace[OF assms] by auto

lemma Watcher_update_updated:
  assumes "Watcher_update n st w = (r, st')"
  shows "updated (trace st') = updated (trace st) @ [w]"
  using Watcher_update_trace[OF assms] by (auto simp: updated_append)

lemma forEach_update_extends: "forEach_update n st ws = (r, st') \<Longrightarrow> extends st st'"
proof (induction ws arbitrary: st)
  case Nil
  then show ?case by (simp add: extends_refl)
next
  case (Cons w ws)
  obtain r1 s1 where g: "Watcher_update n st w = (r1, s1)" by (cases "Watcher_update n st w")
  note e1 = Watcher_update_extends[OF g]
  show ?case
  proof (cases r1)
    case (Inl e) with Cons.prems g e1 show ?thesis by simp
  next
    case (Inr u)
    with Cons.prems g have "forEach_update n s1 ws = (r, st')" by simp
    from Cons.IH[OF this] e1 show ?thesis by (blast intro: extends_trans)
  qed
qed

lemma forEach_update_ok_trace:
  "forEach_update n st ws = (Inr u, st') \<Longrightarrow>
     updated (trace st') = updated (trace st) @ ws \<and>
     map fst (called (trace st')) = map fst (called (trace st)) @ ws"
proof (induction ws arbitrary: st)
  case Nil
  then show ?case by simp
next
  case (Cons w ws)
  obtain r1 s1 where g: "Watcher_update n st w = (r1, s1)" by (cases "Watcher_update n st w")
  show ?case
  proof (cases r1)
    case (Inl e) with Cons.prems g show ?thesis by simp
  next
    case (Inr u1)
    with Cons.prems g have rest: "forEach_update n s1 ws = (Inr u, st')" by simp
    from Watcher_update_ok_trace[OF g[unfolded Inr]] obtain v
      where t1: "trace s1 = trace st @ [Updated w, Called w v]" by blast
    from Cons.IH[OF rest] t1 show ?thesis by (simp add: updated_append called_append)
  qed
qed


lemma forEach_update_abort:
  assumes "forEach_update n st ws1 = (Inr u, st1)" and "Watcher_update n st1 w = (Inl e, st2)"
  shows "forEach_update n st (ws1 @ w # ws2) = (Inl e, st2)"
  using assms
proof (induction ws1 arbitrary: st)
  case Nil
  then show ?case by simp
next
  case (Cons w1 ws1)
  obtain r1 s1 where g: "Watcher_update n st w1 = (r1, s1)" by (cases "Watcher_update n st w1")
  show ?case
  proof (cases r1)
    case (Inl e1) with Cons.prems g show ?thesis by simp
  next
    case (Inr u1)
    with Cons.prems g have "forEach_update n s1 ws1 = (Inr u, st1)" by simp
    from Cons.IH[OF this Cons.prems(2)] g Inr show ?thesis by simp
  qed
qed

lemma extends_subs:
  "extends st st' \<Longrightarrow>
     \<exists>ws. subs st' d = subs st d @ ws \<and> set ws \<subseteq> set_option (target st) \<and>
          (ws = [] \<or> d \<in> reactive_deps st)"
  unfolding extends_def by force

lemma get_prop_fst_heap:
  "heap s2 = heap s1 \<Longrightarrow> fst (get_prop n s2 v k) = fst (get_prop n s1 v k)"
proof (induction n arbitrary: s1 s2 v k)
  case 0
  then show ?case
    by (cases v) (auto simp: lookup_prop_def split: option.splits property.splits)
next
  case (Suc n)
  show ?case
  proof (cases v)
    case (Ref a)
    have lk: "lookup_prop s2 a k = lookup_prop s1 a k" using Suc.prems by (simp add: lookup_prop_def)
    show ?thesis
    proof (cases "lookup_prop s1 a k")
      case None
      with lk Ref show ?thesis by simp
    next
      case (Some p)
      show ?thesis
      proof (cases p)
        case (Proxy key)
        obtain r1 t1 where g1: "get_prop n s1 (Ref a) ''$data'' = (r1, t1)" by (cases "get_prop n s1 (Ref a) ''$data''")
        obtain r2 t2 where g2: "get_prop n s2 (Ref a) ''$data'' = (r2, t2)" by (cases "get_prop n s2 (Ref a) ''$data''")
        have rr: "r2 = r1" using Suc.IH[OF Suc.prems, of "Ref a" "''$data''"] g1 g2 by simp
        have hh: "heap t2 = heap t1"
          using extends_frame(1)[OF get_prop_extends[OF g1]] extends_frame(1)[OF get_prop_extends[OF g2]] Suc.prems
          by simp
        show ?thesis
        proof (cases r1)
          case (Inl e)
          with Ref Some Proxy lk g1 g2 rr show ?thesis by simp
        next
          case (Inr dv)
          with Ref Some Proxy lk g1 g2 rr Suc.IH[OF hh, of dv key] show ?thesis by simp
        qed
      qed (use lk Ref Some in auto)
    qed
  qed simp_all
qed

lemma resolve_fst_heap:
  "heap s2 = heap s1 \<Longrightarrow> fst (resolve n s2 v ks) = fst (resolve n s1 v ks)"
proof (induction ks arbitrary: s1 s2 v)
  case Nil
  then show ?case by simp
next
  case (Cons k ks)
  obtain r1 t1 where g1: "get_prop n s1 v k = (r1, t1)" by (cases "get_prop n s1 v k")
  obtain r2 t2 where g2: "get_prop n s2 v k = (r2, t2)" by (cases "get_prop n s2 v k")
  have rr: "r2 = r1" using get_prop_fst_heap[OF Cons.prems, of n v k] g1 g2 by simp
  have hh: "heap t2 = heap t1"
    using extends_frame(1)[OF get_prop_extends[OF g1]] extends_frame(1)[OF get_prop_extends[OF g2]] Cons.prems
    by simp
  show ?case
  proof (cases r1)
    case (Inl e)
    with g1 g2 rr show ?thesis by simp
  next
    case (Inr u)
    with g1 g2 rr Cons.IH[OF hh, of u] show ?thesis by simp
  qed
qed

lemma resolve_append:
  "resolve n st v (ks1 @ ks2) =
     (case resolve n st v ks1 of (Inl e, s1) \<Rightarrow> (Inl e, s1) | (Inr u, s1) \<Rightarrow> resolve n s1 u ks2)"
  by (induction ks1 arbitrary: st v) (auto split: prod.splits sum.splits)

lemma resolve_absent:
  assumes "resolve n st v ks1 = (Inr u, s1)" and "u = Undefined \<or> u = Null"
  shows "resolve n st v (ks1 @ k # ks2) = (Inl TypeError, s1)"
  using assms by (auto simp: resolve_append)

lemma Watcher_update_absent:
  assumes "split_dot (w_key (watchers st w)) = ks1 @ k # ks2"
    and "fst (resolve n st (w_vm (watchers st w)) ks1) = Inr u"
    and "u = Undefined \<or> u = Null"
  shows "fst (Watcher_update n st w) = Inl TypeError \<and>
         called (trace (snd (Watcher_update n st w))) = called (trace st)"
proof -
  let ?st0 = "st\<lparr>trace := trace st @ [Updated w]\<rparr>"
  obtain r1 s1 where g: "resolve n ?st0 (w_vm (watchers st w)) ks1 = (r1, s1)"
    by (cases "resolve n ?st0 (w_vm (watchers st w)) ks1")
  have "fst (resolve n ?st0 (w_vm (watchers st w)) ks1) = Inr u"
    using resolve_fst_heap[of ?st0 st n "w_vm (watchers st w)" ks1] assms(2) by simp
  with g have g': "resolve n ?st0 (w_vm (watchers st w)) ks1 = (Inr u, s1)" by simp
  have full: "resolve n ?st0 (w_vm (watchers st w)) (split_dot (w_key (watchers st w))) = (Inl TypeError, s1)"
    using resolve_absent[OF g' assms(3)] assms(1) by simp
  have tr: "trace s1 = trace st @ [Updated w]" using resolve_trace[OF g'] by simp
  from full tr show ?thesis by (simp add: Watcher_update_def Let_def called_append)
qed

lemma run_cb_registers:
  assumes "run_cb n s steps = (Inr u, s')" and "CbRead (Ref a) k \<in> set steps"
    and "lookup_prop s a k = Some (Reactive v d)" and "target s = Some w"
  shows "\<exists>ws. subs s' d = subs s d @ ws \<and> w \<in> set ws"
  using assms
proof (induction steps arbitrary: s)
  case Nil
  then show ?case by simp
next
  case (Cons step steps)
  show ?case
  proof (cases step)
    case CbThrow
    with Cons.prems show ?thesis by simp
  next
    case (CbRead b j)
    obtain r1 s1 where g: "get_prop n s b j = (r1, s1)" by (cases "get_prop n s b j")
    note e1 = get_prop_extends[OF g]
    from Cons.prems(1) CbRead g obtain x where r1: "r1 = Inr x" and rest: "run_cb n s1 steps = (Inr u, s')"
      by (cases r1) simp_all
    note e2 = run_cb_extends[OF rest]
    from extends_subs[OF e1, of d] obtain ws1 where ws1: "subs s1 d = subs s d @ ws1" by blast
    from extends_subs[OF e2, of d] obtain ws2 where ws2: "subs s' d = subs s1 d @ ws2" by blast
    show ?thesis
    proof (cases "b = Ref a \<and> j = k")
      case True
      with g Cons.prems(3,4) have "subs s1 d = subs s d @ [w]"
        by (auto simp: getter_track_def Dep_addSub_def)
      with ws2 show ?thesis by simp
    next
      case False
      with Cons.prems(2) CbRead have mem: "CbRead (Ref a) k \<in> set steps" by auto
      have lk: "lookup_prop s1 a k = Some (Reactive v d)" using extends_lookup[OF e1] Cons.prems(3) by simp
      have tg: "target s1 = Some w" using extends_frame(6)[OF e1] Cons.prems(4) by simp
      from Cons.IH[OF rest mem lk tg] ws1 show ?thesis by auto
    qed
  qed
qed

section \<open>Conversion and writing, generically\<close>

lemma observe_rel_aux:
  assumes refl: "\<And>s. R s s"
    and trans: "\<And>s1 s2 s3. R s1 s2 \<Longrightarrow> R s2 s3 \<Longrightarrow> R s1 s3"
    and get: "\<And>n s v k r s'. get_prop n s v k = (r, s') \<Longrightarrow> R s s'"
    and def: "\<And>s a k v. R s (define_prop (snd (new_Dep s)) a k (Reactive v (next_dep s)))"
  shows "(\<forall>r st'. observe n st v = (r, st') \<longrightarrow> R st st')"
    and "(\<forall>r st'. observe_keys n st a ks = (r, st') \<longrightarrow> R st st')"
    and "(\<forall>r st'. defineReactive n st a k v = (r, st') \<longrightarrow> R st st')"
proof (induction n st v and n st a ks and n st a k v
       rule: observe_observe_keys_defineReactive.induct)
  case (5 n st a key keys)
  show ?case
  proof (intro allI impI)
    fix r st'
    assume run: "observe_keys n st a (key # keys) = (r, st')"
    obtain r1 s1 where g: "get_prop n st (Ref a) key = (r1, s1)"
      by (cases "get_prop n st (Ref a) key")
    note R1 = get[OF g]
    show "R st st'"
    proof (cases r1)
      case (Inl e)
      with run g R1 show ?thesis by simp
    next
      case (Inr b)
      obtain r2 s2 where d: "defineReactive n s1 a key b = (r2, s2)"
        by (cases "defineReactive n s1 a key b")
      have R2: "R s1 s2" using "5.IH"(1)[OF g[symmetric] Inr] d by blast
      show ?thesis
      proof (cases r2)
        case (Inl e)
        with run g Inr d have "st' = s2" by simp
        with R1 R2 show ?thesis by (blast intro: trans)
      next
        case (Inr u)
        with run g \<open>r1 = Inr b\<close> d have rest: "observe_keys n s2 a keys = (r, st')" by simp
        have "R s2 st'"
          using "5.IH"(2)[OF g[symmetric] \<open>r1 = Inr b\<close> d[symmetric] Inr] rest by blast
        with R1 R2 show ?thesis by (blast intro: trans)
      qed
    qed
  qed
next
  case (6 n st a key v)
  show ?case
  proof (intro allI impI)
    fix r st'
    assume run: "defineReactive n st a key v = (r, st')"
    obtain r1 s1 where g: "observe n st v = (r1, s1)" by (cases "observe n st v")
    with "6.IH" have R1: "R st s1" by blast
    show "R st st'"
    proof (cases r1)
      case (Inl e)
      with run g R1 show ?thesis by simp
    next
      case (Inr u)
      with run g have "st' = define_prop (snd (new_Dep s1)) a key (Reactive v (next_dep s1))"
        by (simp add: new_Dep_def)
      with R1 def[of s1 a key v] show ?thesis by (blast intro: trans)
    qed
  qed
qed (simp_all add: refl)


lemmas observe_rel = observe_rel_aux(1)[rule_format] observe_rel_aux(2)[rule_format]
  observe_rel_aux(3)[rule_format]

lemma stable_refl: "stable w st st"
  by (simp add: stable_def)

lemma stable_trans: "stable w s1 s2 \<Longrightarrow> stable w s2 s3 \<Longrightarrow> stable w s1 s3"
  unfolding stable_def by auto

lemma stableI:
  assumes "deps_allocated st \<Longrightarrow> deps_allocated st'"
    and "deps_allocated st \<Longrightarrow> w < next_wid st \<Longrightarrow> target st \<noteq> Some w \<Longrightarrow>
           w < next_wid st' \<and> target st' \<noteq> Some w \<and>
           (\<forall>d. count_list (subs st' d) w = count_list (subs st d) w)"
  shows "stable w st st'"
  unfolding stable_def using assms by blast

lemma stable_deps_allocated: "stable w st st' \<Longrightarrow> deps_allocated st \<Longrightarrow> deps_allocated st'"
  by (simp add: stable_def)

lemma stable_counts:
  assumes "stable w st st'" and "deps_allocated st" and "w < next_wid st"
    and "target st \<noteq> Some w"
  shows "w < next_wid st'" and "target st' \<noteq> Some w"
    and "count_list (subs st' d) w = count_list (subs st d) w"
  using assms by (simp_all add: stable_def)

lemma extends_deps_allocated:
  assumes "extends st st'" and "deps_allocated st"
  shows "deps_allocated st'"
proof -
  have rd: "reactive_deps st' = reactive_deps st" by (rule extends_reactive_deps[OF assms(1)])
  have nd: "next_dep st' = next_dep st" by (rule extends_frame(3)[OF assms(1)])
  have "subs st' d = []" if "next_dep st' \<le> d" for d
  proof -
    from extends_subs[OF assms(1), of d] obtain ws where
      ws: "subs st' d = subs st d @ ws" "ws = [] \<or> d \<in> reactive_deps st" by blast
    from that nd assms(2) have "d \<notin> reactive_deps st" "subs st d = []"
      unfolding deps_allocated_def by auto
    with ws show ?thesis by simp
  qed
  moreover have "\<forall>d \<in> reactive_deps st'. d < next_dep st'"
    using assms(2) rd nd unfolding deps_allocated_def by simp
  ultimately show ?thesis unfolding deps_allocated_def by blast
qed

lemma extends_stable:
  assumes "extends st st'"
  shows "stable w st st'"
proof (rule stableI)
  assume "deps_allocated st"
  then show "deps_allocated st'" by (rule extends_deps_allocated[OF assms])
next
  assume a: "w < next_wid st" "target st \<noteq> Some w"
  have "count_list (subs st' d) w = count_list (subs st d) w" for d
  proof -
    from extends_subs[OF assms, of d] obtain ws where
      ws: "subs st' d = subs st d @ ws" "set ws \<subseteq> set_option (target st)" by blast
    from ws(2) a(2) have "w \<notin> set ws" by (cases "target st") auto
    then have "count_list ws w = 0" by simp
    with ws(1) show ?thesis by simp
  qed
  with a extends_frame(5,6)[OF assms]
  show "w < next_wid st' \<and> target st' \<noteq> Some w \<and>
        (\<forall>d. count_list (subs st' d) w = count_list (subs st d) w)"
    by simp
qed

lemma lookup_define_prop:
  "lookup_prop (define_prop st a k p) a' k' =
     (if a' = a \<and> k' = k then Some p else lookup_prop st a' k')"
  by (simp add: lookup_prop_def define_prop_def update_conv')

lemma reactive_deps_define_prop:
  "reactive_deps (define_prop st a k p) \<subseteq>
     reactive_deps st \<union> (case p of Reactive v d \<Rightarrow> {d} | _ \<Rightarrow> {})"
  unfolding reactive_deps_def
  by (auto simp: lookup_define_prop split: if_splits property.splits)

lemma define_prop_stable:
  assumes "\<And>v d. p = Reactive v d \<Longrightarrow> d \<in> reactive_deps st"
  shows "stable w st (define_prop st a k p)"
proof -
  have "reactive_deps (define_prop st a k p) \<subseteq> reactive_deps st"
    using reactive_deps_define_prop[of st a k p] assms by (cases p) auto
  moreover have "subs (define_prop st a k p) = subs st" "next_dep (define_prop st a k p) = next_dep st"
    "next_wid (define_prop st a k p) = next_wid st" "target (define_prop st a k p) = target st"
    by (simp_all add: define_prop_def)
  ultimately show ?thesis unfolding stable_def deps_allocated_def by auto
qed

lemma defineReactive_step_stable:
  "stable w s (define_prop (snd (new_Dep s)) a k (Reactive v (next_dep s)))"
proof -
  let ?s2 = "snd (new_Dep s)"
  let ?s3 = "define_prop ?s2 a k (Reactive v (next_dep s))"
  have rd2: "reactive_deps ?s2 = reactive_deps s"
    by (simp add: reactive_deps_def lookup_prop_def new_Dep_def)
  have rd: "reactive_deps ?s3 \<subseteq> reactive_deps s \<union> {next_dep s}"
    using reactive_deps_define_prop[of ?s2 a k "Reactive v (next_dep s)"] rd2 by simp
  have fr: "subs ?s3 = (subs s)(next_dep s := [])" "next_dep ?s3 = Suc (next_dep s)"
    "next_wid ?s3 = next_wid s" "target ?s3 = target s"
    by (simp_all add: define_prop_def new_Dep_def)
  show ?thesis
  proof (rule stableI)
    assume a: "deps_allocated s"
    show "deps_allocated ?s3"
      unfolding deps_allocated_def
    proof (intro conjI allI impI ballI)
      show "subs ?s3 d = []" if "next_dep ?s3 \<le> d" for d
        using that a fr by (simp add: deps_allocated_def)
      show "d < next_dep ?s3" if "d \<in> reactive_deps ?s3" for d
        using that a rd fr(2) by (auto simp: deps_allocated_def less_Suc_eq)
    qed
    assume b: "w < next_wid s" "target s \<noteq> Some w"
    have "count_list (subs ?s3 d) w = count_list (subs s d) w" for d
      using a fr by (cases "d = next_dep s") (simp_all add: deps_allocated_def)
    with b fr show "w < next_wid ?s3 \<and> target ?s3 \<noteq> Some w \<and>
        (\<forall>d. count_list (subs ?s3 d) w = count_list (subs s d) w)"
      by simp
  qed
qed

lemma observe_stable: "observe n st v = (r, st') \<Longrightarrow> stable w st st'"
  by (rule observe_rel(1)[where R="stable w"])
     (auto intro: stable_refl stable_trans extends_stable get_prop_extends defineReactive_step_stable)

lemma set_prop_rel:
  assumes refl: "\<And>s. R s s"
    and trans: "\<And>s1 s2 s3. R s1 s2 \<Longrightarrow> R s2 s3 \<Longrightarrow> R s1 s3"
    and get: "\<And>n s v k r s'. get_prop n s v k = (r, s') \<Longrightarrow> R s s'"
    and plain: "\<And>s a k x. \<forall>key. lookup_prop s a k \<noteq> Some (Proxy key) \<Longrightarrow> R s (define_prop s a k (Plain x))"
    and react: "\<And>s a k v d x. lookup_prop s a k = Some (Reactive v d) \<Longrightarrow>
                  R s (define_prop s a k (Reactive x d))"
    and notify: "\<And>n s ws r s'. forEach_update n s ws = (r, s') \<Longrightarrow> R s s'"
  shows "set_prop n st v k x = (r, st') \<Longrightarrow> R st st'"
proof -
  have direct: "R st st'"
    if run: "set_prop n st (Ref a) k x = (r, st')"
      and np: "\<forall>key. lookup_prop st a k \<noteq> Some (Proxy key)"
    for n st a k r st'
  proof (cases "lookup_prop st a k")
    case None
    with run plain[OF np] show ?thesis by auto
  next
    case (Some p)
    show ?thesis
    proof (cases p)
      case (Plain y)
      with run Some plain[OF np] show ?thesis by auto
    next
      case (Reactive y d)
      show ?thesis
      proof (cases "strict_eq y x")
        case True
        with run Some Reactive show ?thesis by (simp add: refl)
      next
        case False
        with run Some Reactive
        have "forEach_update n (define_prop st a k (Reactive x d))
                (subs (define_prop st a k (Reactive x d)) d) = (r, st')"
          by (simp add: Dep_notify_def)
        from notify[OF this] react[of st a k y d x] Some Reactive show ?thesis
          by (blast intro: trans)
      qed
    next
      case (Proxy key)
      with np Some show ?thesis by simp
    qed
  qed
  show "set_prop n st v k x = (r, st') \<Longrightarrow> R st st'"
  proof (induction n arbitrary: st v k r st')
    case 0
    show ?case
    proof (cases v)
      case (Ref a)
      show ?thesis
      proof (cases "\<exists>key. lookup_prop st a k = Some (Proxy key)")
        case True
        with 0 Ref show ?thesis by (auto simp: refl)
      next
        case False
        with 0 Ref direct show ?thesis by blast
      qed
    qed (use 0 in \<open>auto simp: refl\<close>)
  next
    case (Suc n)
    show ?case
    proof (cases v)
      case (Ref a)
      show ?thesis
      proof (cases "\<exists>key. lookup_prop st a k = Some (Proxy key)")
        case True
        then obtain key where pk: "lookup_prop st a k = Some (Proxy key)" by blast
        obtain r1 s1 where g: "get_prop n st (Ref a) ''$data'' = (r1, s1)"
          by (cases "get_prop n st (Ref a) ''$data''")
        note R1 = get[OF g]
        show ?thesis
        proof (cases r1)
          case (Inl e)
          with Suc.prems Ref pk g R1 show ?thesis by simp
        next
          case (Inr dv)
          with Suc.prems Ref pk g have "set_prop n s1 dv key x = (r, st')" by simp
          from Suc.IH[OF this] R1 show ?thesis by (blast intro: trans)
        qed
      next
        case False
        with Suc.prems Ref direct show ?thesis by blast
      qed
    qed (use Suc.prems in \<open>auto simp: refl\<close>)
  qed
qed

lemma set_prop_stable: "set_prop n st v k x = (r, st') \<Longrightarrow> stable w st st'"
proof (rule set_prop_rel[where R="stable w"])
  show "stable w s (define_prop s a k (Reactive y d))"
    if "lookup_prop s a k = Some (Reactive v d)" for s a k v d y
    by (rule define_prop_stable) (use that in \<open>auto simp: reactive_deps_def\<close>)
qed (auto intro: stable_refl stable_trans extends_stable get_prop_extends
       forEach_update_extends define_prop_stable)

lemma deps_allocated_cong:
  "heap s' = heap s \<Longrightarrow> subs s' = subs s \<Longrightarrow> next_dep s' = next_dep s \<Longrightarrow>
     deps_allocated s' = deps_allocated s"
  by (simp add: deps_allocated_def reactive_deps_def lookup_prop_def)

lemma map_of_Plain_literal: "map_of (map (\<lambda>(k, v). (k, Plain v)) kvs) k \<noteq> Some (Reactive v d)"
  by (induction kvs) auto

lemma map_of_Plain_elems: "map_of (map (\<lambda>i. (dec i, Plain (elems ! i))) js) k \<noteq> Some (Reactive v d)"
  by (induction js) auto

lemma field_update_stable:
  assumes "subs st' = subs st" "next_dep st' = next_dep st" "next_wid st \<le> next_wid st'"
    "target st' = target st" "reactive_deps st' \<subseteq> reactive_deps st"
  shows "stable w st st'"
  using assms unfolding stable_def deps_allocated_def by auto

lemma Watcher_constructor_stable:
  assumes "Watcher_constructor n st vm key cb = (r, st')"
  shows "stable w st st'"
proof -
  let ?w0 = "next_wid st"
  let ?st1 = "st\<lparr>watchers := (watchers st)(?w0 := \<lparr>w_vm = vm, w_key = key, w_cb = cb\<rparr>),
                 next_wid := Suc ?w0, target := Some ?w0\<rparr>"
  obtain r2 s2 where g: "Watcher_update n ?st1 ?w0 = (r2, s2)" by (cases "Watcher_update n ?st1 ?w0")
  note s12 = extends_stable[OF Watcher_update_extends[OF g], of w]
  have d1: "deps_allocated ?st1 = deps_allocated st"
    by (rule deps_allocated_cong) simp_all
  have st': "st' = s2 \<or> st' = s2\<lparr>target := None\<rparr>"
    using assms g by (cases r2) (auto simp: Watcher_constructor_def Let_def)
  have d2: "deps_allocated (s2\<lparr>target := None\<rparr>) = deps_allocated s2"
    by (rule deps_allocated_cong) simp_all
  show ?thesis
  proof (rule stableI)
    assume a: "deps_allocated st"
    with d1 stable_deps_allocated[OF s12] have "deps_allocated s2" by simp
    with st' d2 show "deps_allocated st'" by auto
    assume b: "w < next_wid st" "target st \<noteq> Some w"
    from a d1 have a1: "deps_allocated ?st1" by simp
    from b have b1: "w < next_wid ?st1" "target ?st1 \<noteq> Some w" by simp_all
    from stable_counts[OF s12 a1 b1]
    have "w < next_wid s2" "target s2 \<noteq> Some w"
      "\<And>d. count_list (subs s2 d) w = count_list (subs st d) w"
      by simp_all
    with st' show "w < next_wid st' \<and> target st' \<noteq> Some w \<and>
        (\<forall>d. count_list (subs st' d) w = count_list (subs st d) w)"
      by auto
  qed
qed

lemma forEach_proxy_stable: "forEach_proxy n st this keys = (r, st') \<Longrightarrow> stable w st st'"
proof (induction keys arbitrary: st)
  case Nil
  then show ?case by (simp add: stable_refl)
next
  case (Cons key keys)
  show ?case
  proof (cases "lookup_prop st this ''_proxy''")
    case None
    with Cons.prems have "forEach_proxy n (Vue_proxy st this key) this keys = (r, st')" by simp
    from Cons.IH[OF this] define_prop_stable[of "Proxy key" st w this key] show ?thesis
      by (auto simp: Vue_proxy_def intro: stable_trans)
  next
    case (Some p)
    obtain r1 s1 where g: "get_prop n st (Ref this) ''_proxy'' = (r1, s1)"
      by (cases "get_prop n st (Ref this) ''_proxy''")
    with Cons.prems Some have "st' = s1" by (cases r1) simp_all
    with extends_stable[OF get_prop_extends[OF g]] show ?thesis by simp
  qed
qed

lemma Vue_constructor_stable:
  assumes "Vue_constructor n st options = (r, st')"
  shows "stable w st st'"
proof -
  let ?vm = "next_addr st"
  let ?st1 = "st\<lparr>heap := (heap st)(?vm := \<lparr>is_array = False, props = [(''$options'', Plain options)]\<rparr>),
                 next_addr := Suc ?vm\<rparr>"
  have s1: "stable w st ?st1"
    by (rule field_update_stable) (auto simp: reactive_deps_def lookup_prop_def split: if_splits)
  obtain r2 st2 where g2: "get_prop n ?st1 options ''data'' = (r2, st2)"
    by (cases "get_prop n ?st1 options ''data''")
  have s2: "stable w ?st1 st2" by (rule extends_stable[OF get_prop_extends[OF g2]])
  show ?thesis
  proof (cases r2)
    case (Inl e)
    with assms g2 have "st' = st2" by (simp add: Vue_constructor_def Let_def)
    with s1 s2 show ?thesis by (blast intro: stable_trans)
  next
    case (Inr d)
    let ?st2' = "define_prop st2 ?vm ''$data'' (Plain d)"
    have s2': "stable w st2 ?st2'" by (rule define_prop_stable) simp
    obtain r3 st3 where g3: "observe n ?st2' d = (r3, st3)" by (cases "observe n ?st2' d")
    note s3 = observe_stable[OF g3, of w]
    have upto3: "stable w st st3" using s1 s2 s2' s3 by (blast intro: stable_trans)
    show ?thesis
    proof (cases r3)
      case (Inl e)
      with assms g2 Inr g3 have "st' = st3" by (simp add: Vue_constructor_def Let_def)
      with upto3 show ?thesis by simp
    next
      case u: (Inr u)
      obtain r4 st4 where g4: "get_prop n st3 (Ref ?vm) ''$data'' = (r4, st4)"
        by (cases "get_prop n st3 (Ref ?vm) ''$data''")
      have upto4: "stable w st st4"
        using upto3 extends_stable[OF get_prop_extends[OF g4]] by (blast intro: stable_trans)
      show ?thesis
      proof (cases r4)
        case (Inl e)
        with assms g2 Inr g3 u g4 have "st' = st4" by (simp add: Vue_constructor_def Let_def)
        with upto4 show ?thesis by simp
      next
        case d': (Inr d')
        show ?thesis
        proof (cases "Object_keys st4 d'")
          case (Inl e)
          with assms g2 Inr g3 u g4 d' have "st' = st4" by (simp add: Vue_constructor_def Let_def)
          with upto4 show ?thesis by simp
        next
          case keys: (Inr keys)
          obtain r5 st5 where g5: "forEach_proxy n st4 ?vm keys = (r5, st5)"
            by (cases "forEach_proxy n st4 ?vm keys")
          with assms g2 Inr g3 u g4 d' keys have "st' = st5"
            by (cases r5) (simp_all add: Vue_constructor_def Let_def)
          with upto4 forEach_proxy_stable[OF g5] show ?thesis by (blast intro: stable_trans)
        qed
      qed
    qed
  qed
qed

lemma exec_stable: "stable w st (exec n st x)"
proof (cases x)
  case (Read v k)
  then show ?thesis
    using extends_stable[OF get_prop_extends[of n st v k]] by (cases "get_prop n st v k") simp
next
  case (Write v k y)
  then show ?thesis using set_prop_stable[of n st v k y] by (cases "set_prop n st v k y") simp
next
  case (NewWatcher vm key cb)
  then show ?thesis
    using Watcher_constructor_stable[of n st vm key cb]
    by (cases "Watcher_constructor n st vm key cb") simp
next
  case (Update u)
  then show ?thesis
    using extends_stable[OF Watcher_update_extends[of n st u]] by (cases "Watcher_update n st u") simp
next
  case (Observe v)
  then show ?thesis using observe_stable[of n st v] by (cases "observe n st v") simp
next
  case (NewVue options)
  then show ?thesis
    using Vue_constructor_stable[of n st options] by (cases "Vue_constructor n st options") simp
next
  case (NewObject kvs)
  have "stable w st (snd (new_object st kvs))"
    by (rule field_update_stable)
       (auto simp: new_object_def reactive_deps_def lookup_prop_def map_of_Plain_literal
             split: if_splits)
  with NewObject show ?thesis by simp
next
  case (NewArray elems)
  have "stable w st (snd (new_array st elems))"
    by (rule field_update_stable)
       (auto simp: new_array_def reactive_deps_def lookup_prop_def map_of_Plain_elems
             split: if_splits)
  with NewArray show ?thesis by simp
qed

lemma exec_all_stable: "stable w st (exec_all n st ops)"
proof (induction ops arbitrary: st)
  case Nil
  show ?case by (simp add: exec_all_def stable_refl)
next
  case (Cons x ops)
  have "exec_all n st (x # ops) = exec_all n (exec n st x) ops" by (simp add: exec_all_def)
  with exec_stable[of w st n x] Cons[of "exec n st x"] show ?case
    by (auto intro: stable_trans)
qed

text \<open>
  The condition on Deps holds when the program starts and is kept by everything a program
  can do, so it holds in every state a program reaches.
\<close>

lemma deps_allocated_init: "deps_allocated init_state"
  by (simp add: deps_allocated_def reactive_deps_def init_state_def lookup_prop_def)

lemma deps_allocated_reachable: "deps_allocated (exec_all n init_state ops)"
  by (rule stable_deps_allocated[OF exec_all_stable[of 0] deps_allocated_init])

section \<open>Conversion reaches every nested object\<close>

lemma conv_refl: "conv st st"
  by (simp add: conv_def)

lemma conv_trans: "conv s1 s2 \<Longrightarrow> conv s2 s3 \<Longrightarrow> conv s1 s3"
  unfolding conv_def by auto

lemma extends_conv: "extends st st' \<Longrightarrow> conv st st'"
  unfolding conv_def field_value_def is_reactive_def own_keys_def
  by (simp add: extends_lookup extends_frame)

lemma conv_reaches: "reaches st a b \<Longrightarrow> conv st st' \<Longrightarrow> reaches st' a b"
proof (induction rule: reaches.induct)
  case (here a)
  show ?case by (rule reaches.here)
next
  case (step a k c b)
  from step.prems step.hyps(1) have "field_value st' a k = Some (Ref c)" by (simp add: conv_def)
  from this step.IH[OF step.prems] show ?case by (rule reaches.step)
qed

lemma conv_reaches_back: "reaches st' a b \<Longrightarrow> conv st st' \<Longrightarrow> reaches st a b"
proof (induction rule: reaches.induct)
  case (here a)
  show ?case by (rule reaches.here)
next
  case (step a k c b)
  from step.prems step.hyps(1) have "field_value st a k = Some (Ref c)" by (simp add: conv_def)
  from this step.IH[OF step.prems] show ?case by (rule reaches.step)
qed

lemma conv_observed: "conv st st' \<Longrightarrow> observed st a \<Longrightarrow> observed st' a"
  unfolding conv_def observed_def by auto

lemma in_own_keys_lookup: "k \<in> set (own_keys st a) \<longleftrightarrow> lookup_prop st a k \<noteq> None"
  by (simp add: own_keys_def lookup_prop_def map_of_eq_None_iff)

lemma own_keys_define_prop:
  "own_keys (define_prop st a k p) b =
     (if b = a \<and> k \<notin> set (own_keys st a) then own_keys st a @ [k] else own_keys st b)"
  by (auto simp: own_keys_def define_prop_def update_keys)

lemma field_value_get:
  "field_value st a k = Some v \<Longrightarrow> fst (get_prop n st (Ref a) k) = Inr v"
  by (auto simp: field_value_def split: option.splits property.splits)

lemma field_value_in_own_keys: "field_value st a k = Some v \<Longrightarrow> k \<in> set (own_keys st a)"
  by (auto simp: in_own_keys_lookup field_value_def split: option.splits)

text \<open>An object is plain when each of its own keys holds a value.\<close>

lemma plain_obj_field_value:
  "plain_obj st a \<longleftrightarrow> (\<forall>k \<in> set (own_keys st a). field_value st a k \<noteq> None)"
proof
  assume p: "plain_obj st a"
  show "\<forall>k \<in> set (own_keys st a). field_value st a k \<noteq> None"
  proof
    fix k
    assume "k \<in> set (own_keys st a)"
    then obtain q where q: "lookup_prop st a k = Some q" by (auto simp: in_own_keys_lookup)
    with p show "field_value st a k \<noteq> None"
      by (cases q) (simp_all add: field_value_def plain_obj_def)
  qed
next
  assume h: "\<forall>k \<in> set (own_keys st a). field_value st a k \<noteq> None"
  show "plain_obj st a"
    unfolding plain_obj_def
  proof (intro allI notI)
    fix k key
    assume l: "lookup_prop st a k = Some (Proxy key)"
    then have "k \<in> set (own_keys st a)" by (simp add: in_own_keys_lookup)
    with h have "field_value st a k \<noteq> None" by blast
    with l show False by (simp add: field_value_def)
  qed
qed

lemma conv_plain_obj: "conv st st' \<Longrightarrow> plain_obj st' a = plain_obj st a"
  by (simp add: plain_obj_field_value conv_def)

lemma conv_plain_data:
  assumes "conv st st'"
  shows "plain_data st' a = plain_data st a"
  unfolding plain_data_def
  using conv_reaches[OF _ assms] conv_reaches_back[OF _ assms] conv_plain_obj[OF assms]
  by blast

lemma plain_data_here: "plain_data st a \<Longrightarrow> plain_obj st a"
  unfolding plain_data_def using reaches.here by blast

lemma plain_data_step:
  assumes "plain_data st a" and "field_value st a k = Some (Ref c)"
  shows "plain_data st c"
  unfolding plain_data_def
proof (intro allI impI)
  fix b
  assume "reaches st c b"
  with assms(2) have "reaches st a b" by (rule reaches.step)
  with assms(1) show "plain_obj st b" by (simp add: plain_data_def)
qed

lemma plain_obj_get:
  assumes "plain_obj st a" and "k \<in> set (own_keys st a)" and "get_prop n st (Ref a) k = (r, st')"
  shows "\<exists>v. r = Inr v \<and> field_value st a k = Some v"
  using assms
  by (cases "lookup_prop st a k")
     (auto simp: in_own_keys_lookup plain_obj_def field_value_def split: property.splits)

lemma defineReactive_step_conv:
  assumes "field_value s a k = Some v"
  shows "conv s (define_prop (snd (new_Dep s)) a k (Reactive v (next_dep s))) \<and>
         is_reactive (define_prop (snd (new_Dep s)) a k (Reactive v (next_dep s))) a k"
proof -
  let ?s2 = "snd (new_Dep s)"
  have lk2: "lookup_prop ?s2 = lookup_prop s"
    by (simp add: fun_eq_iff lookup_prop_def new_Dep_def)
  have ok2: "own_keys ?s2 = own_keys s"
    by (simp add: fun_eq_iff own_keys_def new_Dep_def)
  have kin: "k \<in> set (own_keys s a)"
    by (rule field_value_in_own_keys[OF assms])
  show ?thesis
    using assms kin unfolding conv_def field_value_def is_reactive_def
    by (auto simp: lookup_define_prop lk2 own_keys_define_prop ok2)
qed

text \<open>
  The conversion of plain data changes no key and no value, and when it returns every
  object nested in the data has all its own fields intercepted.
\<close>

lemma observe_converts_aux:
  shows "\<forall>r st'. (\<forall>a. v = Ref a \<longrightarrow> plain_data st a) \<longrightarrow> observe n st v = (r, st') \<longrightarrow>
           conv st st' \<and>
           (r = Inr () \<longrightarrow> (\<forall>a b. v = Ref a \<longrightarrow> reaches st a b \<longrightarrow> observed st' b))"
    and "\<forall>r st'. plain_data st a \<longrightarrow> set ks \<subseteq> set (own_keys st a) \<longrightarrow>
           observe_keys n st a ks = (r, st') \<longrightarrow>
           conv st st' \<and>
           (r = Inr () \<longrightarrow>
              (\<forall>k \<in> set ks. is_reactive st' a k \<and>
                 (\<forall>c b. field_value st a k = Some (Ref c) \<longrightarrow> reaches st c b \<longrightarrow> observed st' b)))"
    and "\<forall>r st'. (\<forall>c. v = Ref c \<longrightarrow> plain_data st c) \<longrightarrow> field_value st a k = Some v \<longrightarrow>
           defineReactive n st a k v = (r, st') \<longrightarrow>
           conv st st' \<and>
           (r = Inr () \<longrightarrow> is_reactive st' a k \<and>
              (\<forall>c b. v = Ref c \<longrightarrow> reaches st c b \<longrightarrow> observed st' b))"
proof (induction n st v and n st a ks and n st a k v
       rule: observe_observe_keys_defineReactive.induct)
  case (2 n st a)
  show ?case
  proof (intro allI impI)
    fix r st'
    assume pd: "\<forall>a'. Ref a = Ref a' \<longrightarrow> plain_data st a'"
      and run: "observe (Suc n) st (Ref a) = (r, st')"
    from pd have pa: "plain_data st a" by simp
    from run have keys: "observe_keys n st a (own_keys st a) = (r, st')"
      by (simp add: own_keys_def)
    from "2.IH" pa keys have c: "conv st st'"
      and ok: "r = Inr () \<Longrightarrow> \<forall>k \<in> set (own_keys st a). is_reactive st' a k \<and>
                 (\<forall>c b. field_value st a k = Some (Ref c) \<longrightarrow> reaches st c b \<longrightarrow> observed st' b)"
      by (auto simp: own_keys_def)
    have "observed st' b" if r: "r = Inr ()" and re: "reaches st a b" for b
      using re
    proof (cases rule: reaches.cases)
      case here
      from c have "own_keys st' a = own_keys st a" by (simp add: conv_def)
      with ok[OF r] here show ?thesis by (simp add: observed_def)
    next
      case (step k c)
      from field_value_in_own_keys[OF step(1)] ok[OF r] step show ?thesis by blast
    qed
    with c show "conv st st' \<and>
        (r = Inr () \<longrightarrow> (\<forall>a' b. Ref a = Ref a' \<longrightarrow> reaches st a' b \<longrightarrow> observed st' b))"
      by simp
  qed
next
  case (5 n st a key keys)
  show ?case
  proof (intro allI impI)
    fix r st'
    assume pd: "plain_data st a" and sub: "set (key # keys) \<subseteq> set (own_keys st a)"
      and run: "observe_keys n st a (key # keys) = (r, st')"
    obtain r1 s1 where g: "get_prop n st (Ref a) key = (r1, s1)"
      by (cases "get_prop n st (Ref a) key")
    from plain_obj_get[OF plain_data_here[OF pd] _ g] sub obtain v where r1: "r1 = Inr v"
      and fv: "field_value st a key = Some v" by auto
    have c1: "conv st s1" by (rule extends_conv[OF get_prop_extends[OF g]])
    have fv1: "field_value s1 a key = Some v" using c1 fv by (simp add: conv_def)
    have pv1: "\<forall>c. v = Ref c \<longrightarrow> plain_data s1 c"
    proof (intro allI impI)
      fix c
      assume "v = Ref c"
      with fv have "plain_data st c" by (auto intro: plain_data_step[OF pd])
      then show "plain_data s1 c" by (simp add: conv_plain_data[OF c1])
    qed
    obtain r2 s2 where d: "defineReactive n s1 a key v = (r2, s2)"
      by (cases "defineReactive n s1 a key v")
    from "5.IH"(1)[OF g[symmetric] r1] pv1 fv1 d have c2: "conv s1 s2"
      and ok2: "r2 = Inr () \<Longrightarrow> is_reactive s2 a key \<and>
                  (\<forall>c b. v = Ref c \<longrightarrow> reaches s1 c b \<longrightarrow> observed s2 b)"
      by blast+
    have c12: "conv st s2" by (rule conv_trans[OF c1 c2])
    show "conv st st' \<and>
           (r = Inr () \<longrightarrow>
              (\<forall>k \<in> set (key # keys). is_reactive st' a k \<and>
                 (\<forall>c b. field_value st a k = Some (Ref c) \<longrightarrow> reaches st c b \<longrightarrow> observed st' b)))"
    proof (cases r2)
      case (Inl e)
      with run g r1 d have "st' = s2" "r = Inl e" by simp_all
      with c12 show ?thesis by simp
    next
      case (Inr u)
      with run g r1 d have rest: "observe_keys n s2 a keys = (r, st')" by simp
      have pd2: "plain_data s2 a" using pd by (simp add: conv_plain_data[OF c12])
      have sub2: "set keys \<subseteq> set (own_keys s2 a)" using sub c12 by (simp add: conv_def)
      from "5.IH"(2)[OF g[symmetric] r1 d[symmetric] Inr] pd2 sub2 rest have c3: "conv s2 st'"
        and ok3: "r = Inr () \<Longrightarrow> \<forall>k \<in> set keys. is_reactive st' a k \<and>
                 (\<forall>c b. field_value s2 a k = Some (Ref c) \<longrightarrow> reaches s2 c b \<longrightarrow> observed st' b)"
        by blast+
      have c: "conv st st'" by (rule conv_trans[OF c12 c3])
      have "is_reactive st' a k \<and>
              (\<forall>c b. field_value st a k = Some (Ref c) \<longrightarrow> reaches st c b \<longrightarrow> observed st' b)"
        if r: "r = Inr ()" and k: "k \<in> set (key # keys)" for k
      proof (cases "k \<in> set keys")
        case True
        from ok3[OF r] True have a1: "is_reactive st' a k"
          and a2: "\<And>c b. field_value s2 a k = Some (Ref c) \<Longrightarrow> reaches s2 c b \<Longrightarrow> observed st' b"
          by blast+
        have "observed st' b" if "field_value st a k = Some (Ref c)" "reaches st c b" for c b
        proof -
          from that(1) c12 have "field_value s2 a k = Some (Ref c)" by (simp add: conv_def)
          moreover have "reaches s2 c b" by (rule conv_reaches[OF that(2) c12])
          ultimately show ?thesis by (rule a2)
        qed
        with a1 show ?thesis by blast
      next
        case False
        with k have kk: "k = key" by simp
        from Inr have "r2 = Inr ()" by simp
        from ok2[OF this] have b1: "is_reactive s2 a key"
          and b2: "\<And>c b. v = Ref c \<Longrightarrow> reaches s1 c b \<Longrightarrow> observed s2 b" by blast+
        from b1 c3 have "is_reactive st' a key" by (simp add: conv_def)
        moreover have "observed st' b" if "field_value st a key = Some (Ref c)" "reaches st c b" for c b
        proof -
          from that(1) fv have "v = Ref c" by simp
          moreover have "reaches s1 c b" by (rule conv_reaches[OF that(2) c1])
          ultimately have "observed s2 b" by (rule b2)
          then show ?thesis by (rule conv_observed[OF c3])
        qed
        ultimately show ?thesis using kk by blast
      qed
      with c show ?thesis by blast
    qed
  qed
next
  case (6 n st a key v)
  show ?case
  proof (intro allI impI)
    fix r st'
    assume pv: "\<forall>c. v = Ref c \<longrightarrow> plain_data st c" and fv: "field_value st a key = Some v"
      and run: "defineReactive n st a key v = (r, st')"
    obtain r1 s1 where g: "observe n st v = (r1, s1)" by (cases "observe n st v")
    from "6.IH" pv g have c1: "conv st s1"
      and ok1: "r1 = Inr () \<Longrightarrow> \<forall>c b. v = Ref c \<longrightarrow> reaches st c b \<longrightarrow> observed s1 b"
      by blast+
    show "conv st st' \<and>
           (r = Inr () \<longrightarrow> is_reactive st' a key \<and>
              (\<forall>c b. v = Ref c \<longrightarrow> reaches st c b \<longrightarrow> observed st' b))"
    proof (cases r1)
      case (Inl e)
      with run g have "st' = s1" "r = Inl e" by simp_all
      with c1 show ?thesis by simp
    next
      case (Inr u)
      with run g have st': "st' = define_prop (snd (new_Dep s1)) a key (Reactive v (next_dep s1))"
        and r: "r = Inr ()"
        by (simp_all add: new_Dep_def)
      have fv1: "field_value s1 a key = Some v" using c1 fv by (simp add: conv_def)
      from defineReactive_step_conv[OF fv1] st'
      have c2: "conv s1 st'" and re: "is_reactive st' a key" by simp_all
      have "observed st' b" if "v = Ref c" "reaches st c b" for c b
      proof -
        from Inr have "r1 = Inr ()" by simp
        from ok1[OF this] that have "observed s1 b" by blast
        then show ?thesis by (rule conv_observed[OF c2])
      qed
      with conv_trans[OF c1 c2] re show ?thesis by blast
    qed
  qed
qed (simp_all add: conv_refl)

lemma observe_converts:
  assumes "plain_data st D" and "observe n st (Ref D) = (Inr (), st')"
  shows "conv st st'" and "reaches st D b \<Longrightarrow> observed st' b"
proof -
  have "\<forall>a. Ref D = Ref a \<longrightarrow> plain_data st a" using assms(1) by simp
  with observe_converts_aux(1)[of "Ref D" st n] assms(2)
  have both: "conv st st' \<and> (\<forall>a b. Ref D = Ref a \<longrightarrow> reaches st a b \<longrightarrow> observed st' b)"
    by blast
  from both show "conv st st'" by simp
  from both show "reaches st D b \<Longrightarrow> observed st' b" by simp
qed








lemma defineReactive_step_own_deps:
  assumes "deps_allocated s" and "own_deps s"
  shows "deps_allocated (define_prop (snd (new_Dep s)) a k (Reactive v (next_dep s))) \<and>
         own_deps (define_prop (snd (new_Dep s)) a k (Reactive v (next_dep s)))"
proof -
  let ?s2 = "snd (new_Dep s)"
  let ?s3 = "define_prop ?s2 a k (Reactive v (next_dep s))"
  have lk2: "lookup_prop ?s2 = lookup_prop s"
    by (simp add: fun_eq_iff lookup_prop_def new_Dep_def)
  have old: "d < next_dep s" if "lookup_prop s a' k' = Some (Reactive v' d)" for a' k' v' d
    using assms(1) that unfolding deps_allocated_def reactive_deps_def by blast
  have fr: "subs ?s3 = (subs s)(next_dep s := [])" "next_dep ?s3 = Suc (next_dep s)"
    by (simp_all add: define_prop_def new_Dep_def)
  have "deps_allocated ?s3"
    unfolding deps_allocated_def reactive_deps_def
    using assms(1) fr old
    by (auto simp: lookup_define_prop lk2 deps_allocated_def less_Suc_eq split: if_splits)
  moreover have "own_deps ?s3"
    unfolding own_deps_def
  proof (intro allI impI)
    fix a1 k1 v1 d a2 k2 v2
    assume l1: "lookup_prop ?s3 a1 k1 = Some (Reactive v1 d)"
      and l2: "lookup_prop ?s3 a2 k2 = Some (Reactive v2 d)"
    show "a1 = a2 \<and> k1 = k2"
    proof (cases "a1 = a \<and> k1 = k")
      case True
      with l1 have d: "d = next_dep s" by (simp add: lookup_define_prop)
      show ?thesis
      proof (cases "a2 = a \<and> k2 = k")
        case True
        with \<open>a1 = a \<and> k1 = k\<close> show ?thesis by simp
      next
        case False
        with l2 have "lookup_prop s a2 k2 = Some (Reactive v2 d)"
          by (auto simp: lookup_define_prop lk2 split: if_splits)
        from old[OF this] d show ?thesis by simp
      qed
    next
      case False
      with l1 have o1: "lookup_prop s a1 k1 = Some (Reactive v1 d)"
        by (auto simp: lookup_define_prop lk2 split: if_splits)
      show ?thesis
      proof (cases "a2 = a \<and> k2 = k")
        case True
        with l2 have "d = next_dep s" by (simp add: lookup_define_prop)
        with old[OF o1] show ?thesis by simp
      next
        case False
        with l2 have "lookup_prop s a2 k2 = Some (Reactive v2 d)"
          by (auto simp: lookup_define_prop lk2 split: if_splits)
        with o1 assms(2) show ?thesis unfolding own_deps_def by blast
      qed
    qed
  qed
  ultimately show ?thesis by simp
qed

lemma extends_own_deps: "extends st st' \<Longrightarrow> own_deps st' = own_deps st"
  by (simp add: own_deps_def extends_lookup)

lemma observe_own_deps:
  assumes "observe n st v = (r, st')" and "deps_allocated st \<and> own_deps st"
  shows "deps_allocated st' \<and> own_deps st'"
proof -
  have "(deps_allocated st \<and> own_deps st) \<longrightarrow> (deps_allocated st' \<and> own_deps st')"
    by (rule observe_rel(1)[where R="\<lambda>s s'. (deps_allocated s \<and> own_deps s) \<longrightarrow> (deps_allocated s' \<and> own_deps s')",
          OF _ _ _ _ assms(1)])
       (auto dest: get_prop_extends simp: extends_own_deps extends_deps_allocated
             defineReactive_step_own_deps)
  with assms(2) show ?thesis by simp
qed

section \<open>Conversion does not touch a new instance\<close>

lemma closed_below_heap: "heap s' = heap s \<Longrightarrow> closed_below N s' = closed_below N s"
  by (simp add: closed_below_def field_value_def lookup_prop_def)

lemma frames_refl: "closed_below N st \<Longrightarrow> frames N st st"
  by (simp add: frames_def)

lemma frames_trans: "frames N s1 s2 \<Longrightarrow> frames N s2 s3 \<Longrightarrow> frames N s1 s3"
  by (simp add: frames_def)

lemma extends_frames: "extends st st' \<Longrightarrow> closed_below N st \<Longrightarrow> frames N st st'"
  using closed_below_heap[of st' st N] by (simp add: frames_def extends_frame)

lemma val_below_simps [simp]:
  "val_below N Undefined" "val_below N Null" "val_below N (Bool b)" "val_below N (Num i)"
  "val_below N NaN" "val_below N (Str s)" "val_below N (Ref a) = (a < N)"
  by (simp_all add: val_below_def)

lemma str_index_below [simp]: "val_below N (str_index s k)"
  by (simp add: str_index_def split: option.splits)

lemma get_prop_below:
  "closed_below N s \<Longrightarrow> val_below N v \<Longrightarrow> get_prop n s v k = (Inr u, s') \<Longrightarrow> val_below N u"
proof (induction n arbitrary: s v k u s')
  case 0
  show ?case
  proof (cases v)
    case (Ref a)
    with "0.prems"(2) have a: "a < N" by simp
    from "0.prems"(3) Ref have "field_value s a k = Some u \<or> u = Undefined"
      by (auto simp: field_value_def split: option.splits property.splits)
    with "0.prems"(1) a show ?thesis by (auto simp: closed_below_def)
  qed (use "0.prems"(3) in auto)
next
  case (Suc n)
  show ?case
  proof (cases v)
    case (Ref a)
    with Suc.prems(2) have a: "a < N" by simp
    show ?thesis
    proof (cases "\<exists>key. lookup_prop s a k = Some (Proxy key)")
      case False
      with Suc.prems(3) Ref have "field_value s a k = Some u \<or> u = Undefined"
        by (auto simp: field_value_def split: option.splits property.splits)
      with Suc.prems(1) a show ?thesis by (auto simp: closed_below_def)
    next
      case True
      then obtain key where pk: "lookup_prop s a k = Some (Proxy key)" by blast
      obtain r1 s1 where g: "get_prop n s (Ref a) ''$data'' = (r1, s1)"
        by (cases "get_prop n s (Ref a) ''$data''")
      from Suc.prems(3) Ref pk g obtain d where r1: "r1 = Inr d"
        and g2: "get_prop n s1 d key = (Inr u, s')"
        by (cases r1) simp_all
      from Suc.IH[OF Suc.prems(1,2)[unfolded Ref] g[unfolded r1]] have d: "val_below N d" .
      have "closed_below N s1"
        using closed_below_heap[OF extends_frame(1)[OF get_prop_extends[OF g]], of N] Suc.prems(1)
        by simp
      from Suc.IH[OF this d g2] show ?thesis .
    qed
  qed (use Suc.prems(3) in auto)
qed

lemma defineReactive_step_frames:
  assumes "closed_below N s" and "a < N" and "val_below N v"
  shows "frames N s (define_prop (snd (new_Dep s)) a k (Reactive v (next_dep s)))"
proof -
  let ?s2 = "snd (new_Dep s)"
  have lk2: "lookup_prop ?s2 = lookup_prop s"
    by (simp add: fun_eq_iff lookup_prop_def new_Dep_def)
  have "heap (define_prop ?s2 a k (Reactive v (next_dep s))) b = heap s b" if "N \<le> b" for b
    using that assms(2) by (simp add: define_prop_def new_Dep_def)
  moreover have "closed_below N (define_prop ?s2 a k (Reactive v (next_dep s)))"
    using assms unfolding closed_below_def field_value_def
    by (auto simp: lookup_define_prop lk2 split: if_splits)
  ultimately show ?thesis by (simp add: frames_def)
qed

lemma observe_frames_aux:
  shows "\<forall>r st'. closed_below N st \<longrightarrow> val_below N v \<longrightarrow> observe n st v = (r, st') \<longrightarrow>
           frames N st st'"
    and "\<forall>r st'. closed_below N st \<longrightarrow> a < N \<longrightarrow> observe_keys n st a ks = (r, st') \<longrightarrow>
           frames N st st'"
    and "\<forall>r st'. closed_below N st \<longrightarrow> a < N \<longrightarrow> val_below N v \<longrightarrow>
           defineReactive n st a k v = (r, st') \<longrightarrow> frames N st st'"
proof (induction n st v and n st a ks and n st a k v
       rule: observe_observe_keys_defineReactive.induct)
  case (2 n st a)
  then show ?case by simp
next
  case (5 n st a key keys)
  show ?case
  proof (intro allI impI)
    fix r st'
    assume cl: "closed_below N st" and a: "a < N"
      and run: "observe_keys n st a (key # keys) = (r, st')"
    obtain r1 s1 where g: "get_prop n st (Ref a) key = (r1, s1)"
      by (cases "get_prop n st (Ref a) key")
    have f1: "frames N st s1" by (rule extends_frames[OF get_prop_extends[OF g] cl])
    show "frames N st st'"
    proof (cases r1)
      case (Inl e)
      with run g f1 show ?thesis by simp
    next
      case (Inr v)
      have vb: "val_below N v"
        by (rule get_prop_below[OF cl _ g[unfolded Inr]]) (simp add: a)
      obtain r2 s2 where d: "defineReactive n s1 a key v = (r2, s2)"
        by (cases "defineReactive n s1 a key v")
      from "5.IH"(1)[OF g[symmetric] Inr] f1 a vb d have f2: "frames N s1 s2"
        by (simp add: frames_def)
      have f12: "frames N st s2" by (rule frames_trans[OF f1 f2])
      show ?thesis
      proof (cases r2)
        case (Inl e)
        with run g Inr d have "st' = s2" by simp
        with f12 show ?thesis by simp
      next
        case u: (Inr u)
        with run g Inr d have rest: "observe_keys n s2 a keys = (r, st')" by simp
        from "5.IH"(2)[OF g[symmetric] Inr d[symmetric] u] f12 a rest have "frames N s2 st'"
          by (simp add: frames_def)
        with f12 show ?thesis by (blast intro: frames_trans)
      qed
    qed
  qed
next
  case (6 n st a key v)
  show ?case
  proof (intro allI impI)
    fix r st'
    assume cl: "closed_below N st" and a: "a < N" and vb: "val_below N v"
      and run: "defineReactive n st a key v = (r, st')"
    obtain r1 s1 where g: "observe n st v = (r1, s1)" by (cases "observe n st v")
    from "6.IH" cl vb g have f1: "frames N st s1" by blast
    show "frames N st st'"
    proof (cases r1)
      case (Inl e)
      with run g f1 show ?thesis by simp
    next
      case (Inr u)
      with run g have "st' = define_prop (snd (new_Dep s1)) a key (Reactive v (next_dep s1))"
        by (simp add: new_Dep_def)
      with defineReactive_step_frames[of N s1 a v key] f1 a vb show ?thesis
        by (auto simp: frames_def)
    qed
  qed
qed (simp_all add: frames_refl)

lemmas observe_frames = observe_frames_aux(1)[rule_format]

lemma forEach_proxy_result:
  "forEach_proxy n s vm ks = (Inr u, s') \<Longrightarrow>
     (\<forall>b. b \<noteq> vm \<longrightarrow> heap s' b = heap s b) \<and>
     (\<forall>j. lookup_prop s' vm j = (if j \<in> set ks then Some (Proxy j) else lookup_prop s vm j))"
proof (induction ks arbitrary: s)
  case Nil
  then show ?case by simp
next
  case (Cons key keys)
  from Cons.prems have none: "lookup_prop s vm ''_proxy'' = None"
    by (cases "lookup_prop s vm ''_proxy''") (auto split: prod.splits sum.splits)
  with Cons.prems have rest: "forEach_proxy n (Vue_proxy s vm key) vm keys = (Inr u, s')" by simp
  from Cons.IH[OF rest] have h: "\<forall>b. b \<noteq> vm \<longrightarrow> heap s' b = heap (Vue_proxy s vm key) b"
    and l: "\<forall>j. lookup_prop s' vm j =
              (if j \<in> set keys then Some (Proxy j) else lookup_prop (Vue_proxy s vm key) vm j)"
    by simp_all
  from h have "\<forall>b. b \<noteq> vm \<longrightarrow> heap s' b = heap s b"
    by (simp add: Vue_proxy_def define_prop_def)
  moreover from l have "\<forall>j. lookup_prop s' vm j =
      (if j \<in> set (key # keys) then Some (Proxy j) else lookup_prop s vm j)"
    by (simp add: Vue_proxy_def lookup_define_prop)
  ultimately show ?case by simp
qed

lemma self_proxied_data_never_returns:
  "lookup_prop s a ''$data'' = Some (Proxy key) \<Longrightarrow>
     get_prop m s (Ref a) ''$data'' = (Inl RangeError, s)"
  by (induction m) simp_all


lemma Object_keys_heap:
  "(\<And>b. d = Ref b \<Longrightarrow> heap s' b = heap s b) \<Longrightarrow> Object_keys s' d = Object_keys s d"
  by (cases d) (simp_all add: Object_keys_def)

lemma proxied_key_overflows:
  assumes "lookup_prop s a ''$data'' = Some (Proxy key)"
    and "lookup_prop s a k = Some (Proxy key')"
  shows "get_prop m s (Ref a) k = (Inl RangeError, s)"
proof (cases m)
  case 0
  with assms(2) show ?thesis by simp
next
  case (Suc j)
  have inner: "get_prop j s (Ref a) ''$data'' = (Inl RangeError, s)"
    by (rule self_proxied_data_never_returns[OF assms(1)])
  show ?thesis
    unfolding Suc
    by (subst get_prop.simps(4))
       (simp only: assms(2) inner option.case property.case nat.case prod.case sum.case)
qed

section \<open>The end-to-end example\<close>

text \<open>
  The callback receives 1 when the tracker is created, nothing for the equal write, and 2
  for the write that changes the value.
\<close>

lemma end_to_end_values:
  "called (trace (snd (Watcher_constructor 0 ex_counter (Ref 0) ''count'' []))) = [(0, Num 1)]"
  "called (trace (exec 0 (snd (Watcher_constructor 0 ex_counter (Ref 0) ''count'' []))
                    (Write (Ref 0) ''count'' (Num 1)))) = [(0, Num 1)]"
  "called (trace ex_end_to_end) = [(0, Num 1), (0, Num 2)]"
  by (simp_all add: ex_end_to_end_def exec_all_def ex_counter_def init_state_def new_object_def
        lookup_prop_def define_prop_def getter_track_def Dep_addSub_def new_Dep_def
        Watcher_update_def Watcher_constructor_def Dep_notify_def strict_eq_def Let_def)

section \<open>The claims\<close>

lemmas run_defs =
  init_state_def new_object_def new_array_def lookup_prop_def define_prop_def
  getter_track_def Dep_addSub_def new_Dep_def Object_keys_def Vue_proxy_def
  Watcher_update_def Watcher_constructor_def Dep_notify_def Vue_constructor_def
  strict_eq_def Let_def

lemma dec_digit: "n < 10 \<Longrightarrow> dec n = [digit n]"
  by (simp add: dec.simps)

lemmas lit_defs = dec_digit digit_def numeral_2_eq_2

text \<open>
  C1, as the specification states it: \<open>Dep.target\<close> is cleared on every exit path of the
  discovery pass, so that a field read made right after a failed construction registers no
  subscriber. The code clears it only after \<open>update()\<close> has returned. When the initial
  callback raises, \<open>Dep.target\<close> still holds tracker 0, and the following read of the
  unrelated field \<open>b\<close> records tracker 0 in the subscription of \<open>b\<close>.
\<close>

theorem target_cleared_on_failure_counterexample:
  "fst (Watcher_constructor 0 ex_ab (Ref 0) ''a'' [CbThrow]) = Inl CallbackError \<and>
   target (snd (Watcher_constructor 0 ex_ab (Ref 0) ''a'' [CbThrow])) = Some 0 \<and>
   subs (snd (Watcher_constructor 0 ex_ab (Ref 0) ''a'' [CbThrow])) 1 = [] \<and>
   subs (snd (get_prop 0 (snd (Watcher_constructor 0 ex_ab (Ref 0) ''a'' [CbThrow])) (Ref 0) ''b'')) 1
     = [0]"
  by (simp add: ex_ab_def run_defs)

text \<open>
  C1, amended: \<open>Dep.target\<close> is cleared when the discovery pass returns normally. When
  key-path resolution or the initial callback raises, the constructor raises with
  \<open>Dep.target\<close> still holding the tracker under construction, and a read of a converted
  field made afterwards appends that tracker to the field's subscription; after a
  construction that returned, such a read appends nothing.
\<close>

theorem target_after_construction:
  assumes "Watcher_constructor n st vm key cb = (r, st')"
  shows "target st' = (case r of Inl e \<Rightarrow> Some (next_wid st) | Inr w \<Rightarrow> None) \<and>
         (lookup_prop st' a k = Some (Reactive v d) \<longrightarrow>
            subs (snd (get_prop m st' (Ref a) k)) d =
              subs st' d @ (case r of Inl e \<Rightarrow> [next_wid st] | Inr w \<Rightarrow> []))"
proof -
  let ?w0 = "next_wid st"
  let ?st1 = "st\<lparr>watchers := (watchers st)(?w0 := \<lparr>w_vm = vm, w_key = key, w_cb = cb\<rparr>),
                 next_wid := Suc ?w0, target := Some ?w0\<rparr>"
  obtain r2 s2 where g: "Watcher_update n ?st1 ?w0 = (r2, s2)" by (cases "Watcher_update n ?st1 ?w0")
  have t2: "target s2 = Some ?w0" using extends_frame(6)[OF Watcher_update_extends[OF g]] by simp
  have tgt: "target st' = (case r of Inl e \<Rightarrow> Some (next_wid st) | Inr w \<Rightarrow> None)"
    using assms g t2 by (cases r2) (auto simp: Watcher_constructor_def Let_def)
  then have "lookup_prop st' a k = Some (Reactive v d) \<Longrightarrow>
            subs (snd (get_prop m st' (Ref a) k)) d =
              subs st' d @ (case r of Inl e \<Rightarrow> [next_wid st] | Inr w \<Rightarrow> [])"
    by (cases r) (simp_all add: getter_track_def Dep_addSub_def)
  with tgt show ?thesis by blast
qed

theorem target_after_construction_witness:
  "target (snd (Watcher_constructor 0 ex_ab (Ref 0) ''x.y'' [])) = Some 0 \<and>
   lookup_prop (snd (Watcher_constructor 0 ex_ab (Ref 0) ''x.y'' [])) 0 ''b''
     = Some (Reactive (Num 2) 1) \<and>
   subs (snd (get_prop 0 (snd (Watcher_constructor 0 ex_ab (Ref 0) ''x.y'' [])) (Ref 0) ''b'')) 1
     = subs (snd (Watcher_constructor 0 ex_ab (Ref 0) ''x.y'' [])) 1 @ [0] \<and>
   target (snd (Watcher_constructor 0 ex_ab (Ref 0) ''a'' [])) = None \<and>
   subs (snd (get_prop 0 (snd (Watcher_constructor 0 ex_ab (Ref 0) ''a'' [])) (Ref 0) ''b'')) 1
     = subs (snd (Watcher_constructor 0 ex_ab (Ref 0) ''a'' [])) 1 @ []"
proof -
  let ?bad = "Watcher_constructor 0 ex_ab (Ref 0) ''x.y'' []"
  let ?good = "Watcher_constructor 0 ex_ab (Ref 0) ''a'' []"
  have nw: "next_wid ex_ab = 0"
    by (simp add: ex_ab_def run_defs)
  have "fst ?bad = Inl TypeError"
    by (simp add: ex_ab_def run_defs)
  then have bad: "?bad = (Inl TypeError, snd ?bad)"
    by (simp add: prod_eq_iff)
  have lk1: "lookup_prop (snd ?bad) 0 ''b'' = Some (Reactive (Num 2) 1)"
    by (simp add: ex_ab_def run_defs)
  have "fst ?good = Inr 0"
    by (simp add: ex_ab_def run_defs)
  then have good: "?good = (Inr 0, snd ?good)"
    by (simp add: prod_eq_iff)
  have lk2: "lookup_prop (snd ?good) 0 ''b'' = Some (Reactive (Num 2) 1)"
    by (simp add: ex_ab_def run_defs)
  from target_after_construction[OF bad, of 0 "''b''" "Num 2" 1 0]
       target_after_construction[OF good, of 0 "''b''" "Num 2" 1 0] nw lk1 lk2
  show ?thesis by simp
qed

text \<open>
  C2, as the specification states it: when the \<open>update()\<close> of one recorded tracker raises
  during \<open>notify()\<close>, the trackers recorded after it are still notified. The code does not
  do that. With trackers 0, 1 and 2 recorded for the field \<open>a\<close>, the write \<open>D.a = null\<close>
  makes the update of tracker 1 (key path \<open>a.b\<close>) raise; the write raises the same error and
  tracker 2 is never updated.
\<close>

theorem notify_isolation_counterexample:
  "subs ex_three_watchers 1 = [0, 1, 2] \<and>
   fst (set_prop 0 ex_three_watchers (Ref 1) ''a'' Null) = Inl TypeError \<and>
   trace (snd (set_prop 0 ex_three_watchers (Ref 1) ''a'' Null)) =
     trace ex_three_watchers @ [Updated 0, Called 0 Null, Updated 1]"
  by (simp add: ex_three_watchers_def ex_nested_def ex_nested_plain_def run_defs eval_nat_numeral)

text \<open>
  C2, amended: \<open>notify()\<close> updates the recorded trackers in order and stops at the first
  one whose \<open>update()\<close> raises. It raises that error to the writer in the state the failed
  update left, and the trackers recorded after the failing one are not updated.
\<close>

theorem notify_stops_at_first_failure:
  assumes "subs st d = ws1 @ w # ws2"
    and "forEach_update n st ws1 = (Inr (), st1)"
    and "Watcher_update n st1 w = (Inl e, st2)"
  shows "Dep_notify n st d = (Inl e, st2) \<and>
         updated (trace st2) = updated (trace st) @ ws1 @ [w]"
proof -
  have "Dep_notify n st d = (Inl e, st2)"
    using forEach_update_abort[OF assms(2,3)] assms(1) by (simp add: Dep_notify_def)
  moreover have "updated (trace st2) = updated (trace st) @ ws1 @ [w]"
    using forEach_update_ok_trace[OF assms(2)] Watcher_update_updated[OF assms(3)] by simp
  ultimately show ?thesis by simp
qed

theorem notify_stops_at_first_failure_witness:
  "subs (define_prop ex_three_watchers 1 ''a'' (Reactive Null 1)) 1 = [0] @ 1 # [2] \<and>
   fst (forEach_update 0 (define_prop ex_three_watchers 1 ''a'' (Reactive Null 1)) [0]) = Inr () \<and>
   Dep_notify 0 (define_prop ex_three_watchers 1 ''a'' (Reactive Null 1)) 1 =
     (Inl TypeError,
      snd (Watcher_update 0
        (snd (forEach_update 0 (define_prop ex_three_watchers 1 ''a'' (Reactive Null 1)) [0])) 1)) \<and>
   updated (trace (snd (Watcher_update 0
        (snd (forEach_update 0 (define_prop ex_three_watchers 1 ''a'' (Reactive Null 1)) [0])) 1))) =
     updated (trace (define_prop ex_three_watchers 1 ''a'' (Reactive Null 1))) @ [0] @ [1]"
proof -
  let ?st = "define_prop ex_three_watchers 1 ''a'' (Reactive Null 1)"
  let ?st1 = "snd (forEach_update 0 ?st [0])"
  let ?st2 = "snd (Watcher_update 0 ?st1 1)"
  have h1: "subs ?st 1 = [0] @ 1 # [2]"
    by (simp add: ex_three_watchers_def ex_nested_def ex_nested_plain_def run_defs eval_nat_numeral)
  have f2: "fst (forEach_update 0 ?st [0]) = Inr ()"
    by (simp add: ex_three_watchers_def ex_nested_def ex_nested_plain_def run_defs eval_nat_numeral)
  then have h2: "forEach_update 0 ?st [0] = (Inr (), ?st1)"
    by (simp add: prod_eq_iff)
  have "fst (Watcher_update 0 ?st1 1) = Inl TypeError"
    by (simp add: ex_three_watchers_def ex_nested_def ex_nested_plain_def run_defs eval_nat_numeral)
  then have h3: "Watcher_update 0 ?st1 1 = (Inl TypeError, ?st2)"
    by (simp add: prod_eq_iff)
  from notify_stops_at_first_failure[OF h1 h2 h3] h1 f2 show ?thesis by blast
qed

text \<open>
  C3, as the specification states it: \<open>Dep.target\<close> is cleared before the initial callback
  is called, so that field reads made inside the initial callback register no subscriber.
  The code calls the callback inside \<open>update()\<close>, before the constructor clears
  \<open>Dep.target\<close>. A tracker of \<open>a\<close> whose callback reads \<open>b\<close> ends up recorded in the
  subscription of \<open>b\<close>, which its key path never passes.
\<close>

theorem callback_after_clear_counterexample:
  "fst (Watcher_constructor 0 ex_ab (Ref 0) ''a'' [CbRead (Ref 0) ''b'']) = Inr 0 \<and>
   subs ex_ab 1 = [] \<and>
   subs (snd (Watcher_constructor 0 ex_ab (Ref 0) ''a'' [CbRead (Ref 0) ''b''])) 1 = [0]"
  by (simp add: ex_ab_def run_defs)

text \<open>
  C3, amended: the initial callback is called while \<open>Dep.target\<close> still holds the tracker
  under construction, and \<open>Dep.target\<close> is cleared only after the callback has returned.
  Every converted field that the initial callback reads gets the tracker appended to its
  subscription during the construction.
\<close>

theorem initial_callback_runs_tracked:
  assumes "Watcher_constructor n st vm key cb = (Inr w, st')"
    and "CbRead (Ref a) k \<in> set cb"
    and "lookup_prop st a k = Some (Reactive v d)"
  shows "w \<in> set (drop (length (subs st d)) (subs st' d)) \<and> target st' = None"
proof -
  let ?w0 = "next_wid st"
  let ?st1 = "st\<lparr>watchers := (watchers st)(?w0 := \<lparr>w_vm = vm, w_key = key, w_cb = cb\<rparr>),
                 next_wid := Suc ?w0, target := Some ?w0\<rparr>"
  obtain r2 s2 where g: "Watcher_update n ?st1 ?w0 = (r2, s2)" by (cases "Watcher_update n ?st1 ?w0")
  with assms(1) obtain u where r2: "r2 = Inr u" and w: "w = ?w0" and st': "st' = s2\<lparr>target := None\<rparr>"
    by (cases r2) (auto simp: Watcher_constructor_def Let_def)
  from g r2 have "Watcher_update n ?st1 ?w0 = (Inr u, s2)" by simp
  then have "\<exists>ws. subs s2 d = subs st d @ ws \<and> ?w0 \<in> set ws"
  proof (cases rule: Watcher_update_cases)
    case (resolution_failed e st1)
    then show ?thesis by simp
  next
    case (callback_ran x s1)
    have e1: "extends ?st1 s1"
      using resolve_extends[OF callback_ran(1)] extends_trace_app[of ?st1 "[Updated ?w0]"]
      by (blast intro: extends_trans)
    from extends_subs[OF e1, of d] obtain ws1 where ws1: "subs s1 d = subs st d @ ws1" by auto
    let ?s1' = "s1\<lparr>trace := trace s1 @ [Called ?w0 x]\<rparr>"
    have lk: "lookup_prop ?s1' a k = Some (Reactive v d)"
      using extends_frame(1)[OF e1] assms(3) by (simp add: lookup_prop_def)
    have tg: "target ?s1' = Some ?w0" using extends_frame(6)[OF e1] by simp
    have cb: "run_cb n ?s1' cb = (Inr u, s2)" using callback_ran(2) by simp
    from run_cb_registers[OF cb assms(2) lk tg] ws1 show ?thesis by auto
  qed
  then show ?thesis using w st' by auto
qed

theorem initial_callback_runs_tracked_witness:
  "fst (Watcher_constructor 0 ex_ab (Ref 0) ''a'' [CbRead (Ref 0) ''b'']) = Inr 0 \<and>
   CbRead (Ref 0) ''b'' \<in> set [CbRead (Ref 0) ''b''] \<and>
   lookup_prop ex_ab 0 ''b'' = Some (Reactive (Num 2) 1) \<and>
   0 \<in> set (drop (length (subs ex_ab 1))
              (subs (snd (Watcher_constructor 0 ex_ab (Ref 0) ''a'' [CbRead (Ref 0) ''b''])) 1)) \<and>
   target (snd (Watcher_constructor 0 ex_ab (Ref 0) ''a'' [CbRead (Ref 0) ''b''])) = None"
proof -
  let ?r = "Watcher_constructor 0 ex_ab (Ref 0) ''a'' [CbRead (Ref 0) ''b'']"
  have f: "fst ?r = Inr 0"
    by (simp add: ex_ab_def run_defs)
  then have h1: "?r = (Inr 0, snd ?r)"
    by (simp add: prod_eq_iff)
  have h2: "CbRead (Ref 0) ''b'' \<in> set [CbRead (Ref 0) ''b'']"
    by simp
  have h3: "lookup_prop ex_ab 0 ''b'' = Some (Reactive (Num 2) 1)"
    by (simp add: ex_ab_def run_defs)
  from initial_callback_runs_tracked[OF h1 h2 h3] f h2 h3 show ?thesis by blast
qed

text \<open>
  C4, as the specification states it: when an intermediate value of the key path is absent,
  resolution fails with a PathResolutionError that identifies the root object, the full
  path and the index of the failing segment. The code raises no such error: for
  \<open>new Watcher(D, 'x.y', cb)\<close> on \<open>D = {a: 1, b: 2}\<close> the read of \<open>y\<close> on undefined raises
  the engine's TypeError.
\<close>

theorem path_resolution_error_counterexample:
  "fst (Watcher_constructor 0 ex_ab (Ref 0) ''x.y'' []) = Inl TypeError \<and>
   \<not> raised_PathResolutionError (fst (Watcher_constructor 0 ex_ab (Ref 0) ''x.y'' []))"
  by (simp add: ex_ab_def run_defs raised_PathResolutionError_def)

text \<open>
  C4, amended: when the segments before some segment of the key path resolve to undefined
  or null, resolution raises a TypeError, during construction as during a later
  \<open>update()\<close>. The constructor raises it, so that no tracker is returned to the caller,
  and the callback is not called.
\<close>

theorem absent_intermediate_raises_TypeError:
  assumes "split_dot key = ks1 @ k # ks2"
    and "fst (resolve n st vm ks1) = Inr u"
    and "u = Undefined \<or> u = Null"
  shows "fst (Watcher_constructor n st vm key cb) = Inl TypeError \<and>
         called (trace (snd (Watcher_constructor n st vm key cb))) = called (trace st) \<and>
         fst (Watcher_update n
                (st\<lparr>watchers := (watchers st)(w := \<lparr>w_vm = vm, w_key = key, w_cb = cb\<rparr>)\<rparr>) w)
           = Inl TypeError"
proof -
  let ?w0 = "next_wid st"
  let ?st1 = "st\<lparr>watchers := (watchers st)(?w0 := \<lparr>w_vm = vm, w_key = key, w_cb = cb\<rparr>),
                 next_wid := Suc ?w0, target := Some ?w0\<rparr>"
  have r1: "fst (resolve n ?st1 vm ks1) = Inr u"
    using resolve_fst_heap[of ?st1 st n vm ks1] assms(2) by simp
  have u1: "fst (Watcher_update n ?st1 ?w0) = Inl TypeError \<and>
            called (trace (snd (Watcher_update n ?st1 ?w0))) = called (trace ?st1)"
    by (rule Watcher_update_absent[where ?ks1.0=ks1 and k=k and ?ks2.0=ks2 and u=u])
       (use assms r1 in simp_all)
  obtain r2 s2 where g: "Watcher_update n ?st1 ?w0 = (r2, s2)" by (cases "Watcher_update n ?st1 ?w0")
  with u1 have "r2 = Inl TypeError" "called (trace s2) = called (trace st)" by simp_all
  with g have c: "fst (Watcher_constructor n st vm key cb) = Inl TypeError \<and>
         called (trace (snd (Watcher_constructor n st vm key cb))) = called (trace st)"
    by (simp add: Watcher_constructor_def Let_def)
  let ?st2 = "st\<lparr>watchers := (watchers st)(w := \<lparr>w_vm = vm, w_key = key, w_cb = cb\<rparr>)\<rparr>"
  have r2: "fst (resolve n ?st2 vm ks1) = Inr u"
    using resolve_fst_heap[of ?st2 st n vm ks1] assms(2) by simp
  have "fst (Watcher_update n ?st2 w) = Inl TypeError"
    using Watcher_update_absent[of ?st2 w ks1 k ks2 n u] assms r2 by simp
  with c show ?thesis by simp
qed

theorem absent_intermediate_raises_TypeError_witness:
  "split_dot ''x.y'' = [''x''] @ ''y'' # [] \<and>
   fst (resolve 0 ex_ab (Ref 0) [''x'']) = Inr Undefined \<and>
   fst (Watcher_constructor 0 ex_ab (Ref 0) ''x.y'' []) = Inl TypeError \<and>
   called (trace (snd (Watcher_constructor 0 ex_ab (Ref 0) ''x.y'' []))) = called (trace ex_ab) \<and>
   fst (Watcher_update 0
          (ex_ab\<lparr>watchers := (watchers ex_ab)(0 := \<lparr>w_vm = Ref 0, w_key = ''x.y'', w_cb = []\<rparr>)\<rparr>) 0)
     = Inl TypeError"
proof -
  have h1: "split_dot ''x.y'' = [''x''] @ ''y'' # []"
    by simp
  have h2: "fst (resolve 0 ex_ab (Ref 0) [''x'']) = Inr Undefined"
    by (simp add: ex_ab_def run_defs)
  have h3: "Undefined = Undefined \<or> Undefined = Null"
    by simp
  from absent_intermediate_raises_TypeError[OF h1 h2 h3, of "[]" 0] h1 h2 show ?thesis by blast
qed

text \<open>
  C5, as the specification states it: converting an object with an array-valued field
  intercepts the array reference only, and no element index of the array becomes an
  intercepted field with a subscription of its own. The code makes no difference between
  an array and any other object: converting \<open>D = {list: [7, 8]}\<close> turns the elements
  \<open>0\<close> and \<open>1\<close> of the array into intercepted fields, each with its own Dep.
\<close>

theorem array_elements_not_converted_counterexample:
  "is_array (heap ex_list_plain 0) \<and>
   lookup_prop ex_list_plain 1 ''list'' = Some (Plain (Ref 0)) \<and>
   fst (observe 2 ex_list_plain (Ref 1)) = Inr () \<and>
   lookup_prop (snd (observe 2 ex_list_plain (Ref 1))) 0 ''0'' = Some (Reactive (Num 7) 0) \<and>
   lookup_prop (snd (observe 2 ex_list_plain (Ref 1))) 0 ''1'' = Some (Reactive (Num 8) 1) \<and>
   lookup_prop (snd (observe 2 ex_list_plain (Ref 1))) 1 ''list'' = Some (Reactive (Ref 0) 2)"
  by (simp add: ex_list_plain_def run_defs lit_defs)

text \<open>
  C5, amended: a conversion that returns treats an array-valued field like any
  object-valued field: the field is intercepted, and so is every element index that the
  array has at conversion time, each with a subscription that no other field shares.
\<close>

theorem array_elements_are_converted:
  assumes "plain_data st D" and "deps_allocated st" and "own_deps st"
    and "observe n st (Ref D) = (Inr (), st')"
    and "field_value st D k = Some (Ref arr)" and "is_array (heap st arr)"
    and "i \<in> set (own_keys st arr)"
  shows "is_reactive st' D k \<and> is_reactive st' arr i \<and> own_deps st'"
proof -
  note c = observe_converts(1)[OF assms(1,4)]
  have "reaches st D arr" by (rule reaches.step[OF assms(5) reaches.here])
  note ob = observe_converts(2)[OF assms(1,4) this]
  from c assms(7) have "i \<in> set (own_keys st' arr)" by (simp add: conv_def)
  with ob have el: "is_reactive st' arr i" by (simp add: observed_def)
  from c field_value_in_own_keys[OF assms(5)] have "k \<in> set (own_keys st' D)"
    by (simp add: conv_def)
  with observe_converts(2)[OF assms(1,4) reaches.here] have fi: "is_reactive st' D k"
    by (simp add: observed_def)
  from observe_own_deps[OF assms(4)] assms(2,3) el fi show ?thesis by simp
qed

theorem array_elements_are_converted_witness:
  "plain_data ex_list_plain 1 \<and> deps_allocated ex_list_plain \<and> own_deps ex_list_plain \<and>
   fst (observe 2 ex_list_plain (Ref 1)) = Inr () \<and>
   field_value ex_list_plain 1 ''list'' = Some (Ref 0) \<and>
   is_array (heap ex_list_plain 0) \<and>
   ''1'' \<in> set (own_keys ex_list_plain 0) \<and>
   is_reactive (snd (observe 2 ex_list_plain (Ref 1))) 1 ''list'' \<and>
   is_reactive (snd (observe 2 ex_list_plain (Ref 1))) 0 ''1'' \<and>
   own_deps (snd (observe 2 ex_list_plain (Ref 1)))"
proof -
  let ?r = "observe 2 ex_list_plain (Ref 1)"
  have "plain_obj ex_list_plain b" for b
    unfolding plain_obj_def
    by (auto simp: ex_list_plain_def run_defs lit_defs split: if_splits)
  then have h1: "plain_data ex_list_plain 1"
    by (simp add: plain_data_def)
  have h2: "deps_allocated ex_list_plain"
    unfolding deps_allocated_def reactive_deps_def
    by (auto simp: ex_list_plain_def run_defs lit_defs split: if_splits)
  have h3: "own_deps ex_list_plain"
    unfolding own_deps_def
    by (auto simp: ex_list_plain_def run_defs lit_defs split: if_splits)
  have f: "fst ?r = Inr ()"
    by (simp add: ex_list_plain_def run_defs lit_defs)
  then have h4: "?r = (Inr (), snd ?r)"
    by (simp add: prod_eq_iff)
  have h5: "field_value ex_list_plain 1 ''list'' = Some (Ref 0)"
    by (simp add: field_value_def ex_list_plain_def run_defs lit_defs)
  have h6: "is_array (heap ex_list_plain 0)"
    by (simp add: ex_list_plain_def run_defs lit_defs)
  have h7: "''1'' \<in> set (own_keys ex_list_plain 0)"
    by (simp add: own_keys_def ex_list_plain_def run_defs lit_defs)
  from array_elements_are_converted[OF h1 h2 h3 h4 h5 h6 h7] h1 h2 h3 f h5 h6 h7
  show ?thesis by blast
qed







text \<open>
  C8. Writing to a converted field a value strictly equal to the one it holds changes
  nothing: the write returns normally in the very state it started from, so the stored
  value, every subscription list and the trace of update and callback calls are the same.
\<close>

theorem equal_write_is_noop:
  assumes "lookup_prop st a k = Some (Reactive v d)" and "strict_eq v x"
  shows "set_prop n st (Ref a) k x = (Inr (), st)"
  using assms by simp

text \<open>
  The theorem at work on the field \<open>count\<close> with trackers 0 and 1 recorded, where a
  notification would have called both callbacks, and on the same field with tracker 2 left
  in \<open>Dep.target\<close> by a failed construction, where a notification would have recorded
  tracker 2 three more times.
\<close>

theorem equal_write_is_noop_witness:
  "lookup_prop ex_counter_watched 0 ''count'' = Some (Reactive (Num 1) 0) \<and>
   strict_eq (Num 1) (Num 1) \<and>
   subs ex_counter_watched 0 = [0, 1] \<and>
   set_prop 0 ex_counter_watched (Ref 0) ''count'' (Num 1) = (Inr (), ex_counter_watched) \<and>
   trace (snd (Dep_notify 0 ex_counter_watched 0)) =
     trace ex_counter_watched @ [Updated 0, Called 0 (Num 1), Updated 1, Called 1 (Num 1)] \<and>
   lookup_prop ex_counter_pending 0 ''count'' = Some (Reactive (Num 1) 0) \<and>
   target ex_counter_pending = Some 2 \<and>
   subs ex_counter_pending 0 = [0, 1, 2] \<and>
   set_prop 0 ex_counter_pending (Ref 0) ''count'' (Num 1) = (Inr (), ex_counter_pending) \<and>
   subs (snd (Dep_notify 0 ex_counter_pending 0)) 0 = [0, 1, 2, 2, 2, 2]"
proof -
  have h1: "lookup_prop ex_counter_watched 0 ''count'' = Some (Reactive (Num 1) 0)"
    by (simp add: ex_counter_watched_def ex_counter_def run_defs)
  have h2: "strict_eq (Num 1) (Num 1)"
    by (simp add: strict_eq_def)
  have s: "subs ex_counter_watched 0 = [0, 1]"
    by (simp add: ex_counter_watched_def ex_counter_def run_defs)
  have t: "trace (snd (Dep_notify 0 ex_counter_watched 0)) =
     trace ex_counter_watched @ [Updated 0, Called 0 (Num 1), Updated 1, Called 1 (Num 1)]"
    by (simp add: ex_counter_watched_def ex_counter_def run_defs)
  have k1: "lookup_prop ex_counter_pending 0 ''count'' = Some (Reactive (Num 1) 0)"
    by (simp add: ex_counter_pending_def ex_counter_watched_def ex_counter_def run_defs)
  have k2: "target ex_counter_pending = Some 2"
    by (simp add: ex_counter_pending_def ex_counter_watched_def ex_counter_def run_defs)
  have k3: "subs ex_counter_pending 0 = [0, 1, 2]"
    by (simp add: ex_counter_pending_def ex_counter_watched_def ex_counter_def run_defs)
  have k4: "subs (snd (Dep_notify 0 ex_counter_pending 0)) 0 = [0, 1, 2, 2, 2, 2]"
    by (simp add: ex_counter_pending_def ex_counter_watched_def ex_counter_def run_defs)
  from equal_write_is_noop[OF h1 h2, of 0] equal_write_is_noop[OF k1 h2, of 0]
       h1 h2 s t k1 k2 k3 k4
  show ?thesis by blast
qed



text \<open>
  C10. Each own key of \<open>options.data\<close> is mirrored on the instance: reading \<open>vm.k\<close>
  returns \<open>vm.$data[k]\<close> and writing \<open>vm.k\<close> forwards to \<open>vm.$data[k]\<close>. The code
  misses the key that collides with the field in which the instance keeps the data. For
  \<open>data = {$data: 1, x: 2}\<close> the constructor replaces \<open>vm.$data\<close> by an accessor that
  reads \<open>this.$data\<close>, which is itself. Every proxied key reads \<open>this.$data\<close> first, so
  reading \<open>vm.x\<close> exhausts the stack at every depth allowed, while \<open>x\<close> of the data
  object reads as 2.
\<close>

theorem proxy_of_dollar_data_key_overflows:
  "fst (Vue_constructor 1 ex_dollar_options (Ref 1)) = Inr 2 \<and>
   Object_keys (snd (Vue_constructor 1 ex_dollar_options (Ref 1))) (Ref 0) = Inr [''$data'', ''x''] \<and>
   lookup_prop (snd (Vue_constructor 1 ex_dollar_options (Ref 1))) 2 ''$data''
     = Some (Proxy ''$data'') \<and>
   (\<forall>m. fst (get_prop m (snd (Vue_constructor 1 ex_dollar_options (Ref 1))) (Ref 0) ''x'')
          = Inr (Num 2)) \<and>
   (\<forall>m. fst (get_prop m (snd (Vue_constructor 1 ex_dollar_options (Ref 1))) (Ref 2) ''x'')
          = Inl RangeError)"
proof -
  let ?st = "snd (Vue_constructor 1 ex_dollar_options (Ref 1))"
  have r: "fst (Vue_constructor 1 ex_dollar_options (Ref 1)) = Inr 2"
    by (simp add: ex_dollar_options_def run_defs)
  have ks: "Object_keys ?st (Ref 0) = Inr [''$data'', ''x'']"
    by (simp add: ex_dollar_options_def run_defs)
  have self: "lookup_prop ?st 2 ''$data'' = Some (Proxy ''$data'')"
    by (simp add: ex_dollar_options_def run_defs)
  have px: "lookup_prop ?st 2 ''x'' = Some (Proxy ''x'')"
    by (simp add: ex_dollar_options_def run_defs)
  have dx: "field_value ?st 0 ''x'' = Some (Num 2)"
    by (simp add: field_value_def ex_dollar_options_def run_defs)
  have direct: "fst (get_prop m ?st (Ref 0) ''x'') = Inr (Num 2)" for m
    by (rule field_value_get[OF dx])
  have "fst (get_prop m ?st (Ref 2) ''x'') = Inl RangeError" for m
    by (simp only: proxied_key_overflows[OF self px] fst_conv)
  with r ks self direct show ?thesis by blast
qed

text \<open>
  When the data has no own key named \<open>$data\<close>, the mirror holds. For every state in which
  allocated objects refer to allocated objects only, with \<open>options\<close> an object whose field
  \<open>data\<close> holds \<open>d\<close>: after the constructor has returned, \<open>vm.$data\<close> is \<open>d\<close>, and each
  own key \<open>k\<close> of \<open>d\<close> is on the instance an accessor that holds no value; reading
  \<open>vm.k\<close> is reading \<open>d[k]\<close> and writing \<open>vm.k = x\<close> is writing \<open>d[k] = x\<close>, one call
  deeper.
\<close>

theorem proxied_keys_mirror_data:
  assumes cl: "closed_below (next_addr st) st" and ob: "opts < next_addr st"
    and fd: "field_value st opts ''data'' = Some d"
    and run: "Vue_constructor n st (Ref opts) = (Inr vm, st')"
    and keys: "Object_keys st' d = Inr keys" and k: "k \<in> set keys"
    and nd: "''$data'' \<notin> set keys"
  shows "lookup_prop st' vm ''$data'' = Some (Plain d) \<and>
         lookup_prop st' vm k = Some (Proxy k) \<and>
         get_prop (Suc m) st' (Ref vm) k = get_prop m st' d k \<and>
         set_prop (Suc m) st' (Ref vm) k x = set_prop m st' d k x"
proof -
  let ?N = "next_addr st"
  let ?st1 = "st\<lparr>heap := (heap st)(?N := \<lparr>is_array = False, props = [(''$options'', Plain (Ref opts))]\<rparr>),
                 next_addr := Suc ?N\<rparr>"
  obtain r2 st2 where g2: "get_prop n ?st1 (Ref opts) ''data'' = (r2, st2)"
    by (cases "get_prop n ?st1 (Ref opts) ''data''")
  have "field_value ?st1 opts ''data'' = Some d"
    using fd ob by (simp add: field_value_def lookup_prop_def)
  from field_value_get[OF this, of n] g2 have r2: "r2 = Inr d" by simp
  have db: "val_below ?N d" using cl ob fd by (auto simp: closed_below_def)
  have cl1: "closed_below ?N ?st1"
    using cl by (simp add: closed_below_def field_value_def lookup_prop_def)
  note e2 = get_prop_extends[OF g2]
  have cl2: "closed_below ?N st2"
    using closed_below_heap[OF extends_frame(1)[OF e2], of ?N] cl1 by simp
  let ?st2' = "define_prop st2 ?N ''$data'' (Plain d)"
  have cl2': "closed_below ?N ?st2'"
    using cl2 by (simp add: closed_below_def field_value_def lookup_define_prop)
  obtain r3 st3 where g3: "observe n ?st2' d = (r3, st3)" by (cases "observe n ?st2' d")
  from observe_frames[OF cl2' db g3] have h3: "heap st3 ?N = heap ?st2' ?N"
    by (simp add: frames_def)
  have "heap ?st2' ?N =
      \<lparr>is_array = False, props = [(''$options'', Plain (Ref opts)), (''$data'', Plain d)]\<rparr>"
    by (simp add: define_prop_def extends_frame(1)[OF e2])
  with h3 have p3: "props (heap st3 ?N) = [(''$options'', Plain (Ref opts)), (''$data'', Plain d)]"
    by simp
  then have l3: "lookup_prop st3 ?N ''$data'' = Some (Plain d)"
    "lookup_prop st3 ?N ''_proxy'' = None"
    by (simp_all add: lookup_prop_def)
  then have g4: "get_prop n st3 (Ref ?N) ''$data'' = (Inr d, st3)" by simp
  obtain r5 st5 where g5: "forEach_proxy n st3 ?N (case Object_keys st3 d of Inr ks \<Rightarrow> ks | Inl e \<Rightarrow> [])
                             = (r5, st5)"
    by (cases "forEach_proxy n st3 ?N (case Object_keys st3 d of Inr ks \<Rightarrow> ks | Inl e \<Rightarrow> [])")
  from run g2 r2 g3 g4 g5 obtain keys3 where k3: "Object_keys st3 d = Inr keys3"
    and r5: "r5 = Inr ()" and vm: "vm = ?N" and st': "st' = st5"
    by (cases r3; cases "Object_keys st3 d"; cases r5)
       (simp_all add: Vue_constructor_def Let_def)
  from g5 k3 r5 have "forEach_proxy n st3 ?N keys3 = (Inr (), st5)" by simp
  from forEach_proxy_result[OF this]
  have h5: "\<And>b. b \<noteq> ?N \<Longrightarrow> heap st5 b = heap st3 b"
    and l5: "\<And>j. lookup_prop st5 ?N j =
               (if j \<in> set keys3 then Some (Proxy j) else lookup_prop st3 ?N j)"
    by simp_all
  have "Object_keys st5 d = Object_keys st3 d"
    by (rule Object_keys_heap) (use db h5 in auto)
  with keys k3 st' have "keys3 = keys" by simp
  with l5 l3 k nd vm st' have data: "lookup_prop st' vm ''$data'' = Some (Plain d)"
    and acc: "lookup_prop st' vm k = Some (Proxy k)"
    by simp_all
  from data have "get_prop m st' (Ref vm) ''$data'' = (Inr d, st')" by simp
  with acc data show ?thesis by simp
qed

theorem proxied_keys_mirror_data_witness:
  "closed_below (next_addr ex_vue_options) ex_vue_options \<and>
   1 < next_addr ex_vue_options \<and>
   field_value ex_vue_options 1 ''data'' = Some (Ref 0) \<and>
   fst (Vue_constructor 1 ex_vue_options (Ref 1)) = Inr 2 \<and>
   Object_keys (snd (Vue_constructor 1 ex_vue_options (Ref 1))) (Ref 0) = Inr [''count''] \<and>
   lookup_prop (snd (Vue_constructor 1 ex_vue_options (Ref 1))) 2 ''count''
     = Some (Proxy ''count'') \<and>
   get_prop (Suc 0) (snd (Vue_constructor 1 ex_vue_options (Ref 1))) (Ref 2) ''count''
     = get_prop 0 (snd (Vue_constructor 1 ex_vue_options (Ref 1))) (Ref 0) ''count'' \<and>
   set_prop (Suc 0) (snd (Vue_constructor 1 ex_vue_options (Ref 1))) (Ref 2) ''count'' (Num 5)
     = set_prop 0 (snd (Vue_constructor 1 ex_vue_options (Ref 1))) (Ref 0) ''count'' (Num 5) \<and>
   fst (get_prop (Suc 0) (snd (Vue_constructor 1 ex_vue_options (Ref 1))) (Ref 2) ''count'')
     = Inr (Num 1)"
proof -
  let ?r = "Vue_constructor 1 ex_vue_options (Ref 1)"
  have h1: "closed_below (next_addr ex_vue_options) ex_vue_options"
    unfolding closed_below_def field_value_def
    by (auto simp: ex_vue_options_def run_defs split: if_splits)
  have h2: "1 < next_addr ex_vue_options"
    by (simp add: ex_vue_options_def run_defs)
  have h3: "field_value ex_vue_options 1 ''data'' = Some (Ref 0)"
    by (simp add: field_value_def ex_vue_options_def run_defs)
  have f: "fst ?r = Inr 2"
    by (simp add: ex_vue_options_def run_defs)
  then have h4: "?r = (Inr 2, snd ?r)"
    by (simp add: prod_eq_iff)
  have h5: "Object_keys (snd ?r) (Ref 0) = Inr [''count'']"
    by (simp add: ex_vue_options_def run_defs)
  have h6: "''count'' \<in> set [''count'']"
    by simp
  have h7: "''$data'' \<notin> set [''count'']"
    by simp
  have v: "fst (get_prop (Suc 0) (snd ?r) (Ref 2) ''count'') = Inr (Num 1)"
    by (simp add: ex_vue_options_def run_defs)
  from proxied_keys_mirror_data[OF h1 h2 h3 h4 h5 h6 h7, of 0 "Num 5"] h1 h2 h3 f h5 v
  show ?thesis by blast
qed

end
